theory Spec2Isabelle
  imports Main "HOL-Library.Word"
begin

section \<open>The minesweeper board engine of minesweeper.c\<close>

text \<open>
  A shallow embedding of \<^verbatim>\<open>struct SBoard\<close> and of the functions that act on it.
  A cell, a coordinate and a counter are all \<^verbatim>\<open>TCell = int8_t\<close>, modelled as an
  8-bit word and read in two's complement with \<open>sint\<close>. C promotes an
  \<^verbatim>\<open>int8_t\<close> operand to \<^verbatim>\<open>int\<close> before any arithmetic or comparison, so
  expressions are computed on \<open>int\<close> over \<open>sint\<close> and converted back with
  \<open>word_of_int\<close> exactly where the source stores into a \<^verbatim>\<open>TCell\<close>
  (the narrowing conversion wraps modulo 256). The increments \<^verbatim>\<open>++v\<close> on a
  \<^verbatim>\<open>TCell\<close> are written \<open>v + 1\<close> on the word, which is the same wrap.

  The ncurses windows and the start time stamp are not part of the model. The
  results of \<^verbatim>\<open>rand()\<close> are a sequence \<open>rng :: nat \<Rightarrow> nat\<close> together with the
  position of the next draw. Loops and the recursion of the flood fill take a
  fuel argument: the result \<open>None\<close> means that the call did not return with this
  fuel, and a computation does not return at all exactly when it is \<open>None\<close> for
  every amount of fuel. That is a loop that runs forever, or, in \<^verbatim>\<open>init\<close> alone, the
  end of the process at a failed allocation.
\<close>

type_synonym TCell = "8 word"

subsection \<open>Cell types\<close>

definition ERROR :: TCell where "ERROR = 127"
definition MINE :: TCell where "MINE = 42"
definition REVEAL :: TCell where "REVEAL = 82"
definition FLAGGED :: TCell where "FLAGGED = 70"
definition WRONG_FLAG :: TCell where "WRONG_FLAG = 88"
definition BLANK :: TCell where "BLANK = 0"

subsection \<open>Random cells\<close>

text \<open>
  \<^verbatim>\<open>random(start, end)\<close>: the arguments are \<^verbatim>\<open>int\<close>; \<^verbatim>\<open>rand()\<close> is called only
  when the range is accepted. The state of the generator is the position \<open>p\<close>.
\<close>

definition random :: "(nat \<Rightarrow> nat) \<Rightarrow> nat \<Rightarrow> int \<Rightarrow> int \<Rightarrow> TCell \<times> nat" where
  "random rng p start endv =
     (if start < 0 \<or> endv < 1 \<or> start \<ge> endv then (ERROR, p)
      else let range = endv - start;
               r = int (rng p) mod range;
               r = r + start
           in if r > sint ERROR then (ERROR, Suc p) else (word_of_int r, Suc p))"

subsection \<open>The board\<close>

record SBoard =
  curY :: TCell
  curX :: TCell
  done_flag :: bool
  win :: bool
  lose :: bool
  revealCount :: TCell
  flagCount :: TCell
  height :: TCell
  width :: TCell
  mines :: TCell
  board :: "TCell list"
  input_board :: "TCell list"

definition is_valid :: "SBoard \<Rightarrow> TCell \<Rightarrow> TCell \<Rightarrow> bool" where
  "is_valid s y x \<longleftrightarrow>
     sint y \<ge> 0 \<and> sint y < sint (height s) \<and> sint x \<ge> 0 \<and> sint x < sint (width s)"

text \<open>The index \<^verbatim>\<open>x * height + y\<close> of a cell in either array, computed on \<^verbatim>\<open>int\<close>.\<close>

definition cell_index :: "SBoard \<Rightarrow> TCell \<Rightarrow> TCell \<Rightarrow> nat" where
  "cell_index s y x = nat (sint x * sint (height s) + sint y)"

definition get :: "SBoard \<Rightarrow> TCell \<Rightarrow> TCell \<Rightarrow> TCell" where
  "get s y x = (if is_valid s y x then board s ! cell_index s y x else ERROR)"

definition set_cell :: "SBoard \<Rightarrow> TCell \<Rightarrow> TCell \<Rightarrow> TCell \<Rightarrow> SBoard" where
  "set_cell s y x val =
     (if is_valid s y x then s\<lparr>board := (board s)[cell_index s y x := val]\<rparr> else s)"

definition geti :: "SBoard \<Rightarrow> TCell \<Rightarrow> TCell \<Rightarrow> TCell" where
  "geti s y x = (if is_valid s y x then input_board s ! cell_index s y x else ERROR)"

definition seti :: "SBoard \<Rightarrow> TCell \<Rightarrow> TCell \<Rightarrow> TCell \<Rightarrow> SBoard" where
  "seti s y x val =
     (if is_valid s y x then s\<lparr>input_board := (input_board s)[cell_index s y x := val]\<rparr>
      else s)"

definition is_done :: "SBoard \<Rightarrow> bool" where
  "is_done s = done_flag s"

definition quit :: "SBoard \<Rightarrow> SBoard" where
  "quit s = s\<lparr>done_flag := True\<rparr>"

definition max_reveal :: "SBoard \<Rightarrow> TCell" where
  "max_reveal s = word_of_int (sint (height s) * sint (width s) - sint (mines s))"

subsection \<open>Loops over a \<^verbatim>\<open>TCell\<close> variable\<close>

text \<open>
  \<^verbatim>\<open>for (TCell i = i0; i <= hi; ++i) body\<close> and \<^verbatim>\<open>for (TCell i = i0; i < hi; ++i) body\<close>,
  where the bound \<open>hi\<close> is an \<^verbatim>\<open>int\<close> expression that the body does not change.
  The variable is 8 bits wide, the comparison is on \<^verbatim>\<open>int\<close>.
\<close>

fun for_le :: "nat \<Rightarrow> TCell \<Rightarrow> int \<Rightarrow> (TCell \<Rightarrow> 'a \<Rightarrow> 'a option) \<Rightarrow> 'a \<Rightarrow> 'a option" where
  "for_le 0 i hi body a = None"
| "for_le (Suc n) i hi body a =
     (if sint i \<le> hi
      then (case body i a of None \<Rightarrow> None | Some a' \<Rightarrow> for_le n (i + 1) hi body a')
      else Some a)"

fun for_lt :: "nat \<Rightarrow> TCell \<Rightarrow> int \<Rightarrow> (TCell \<Rightarrow> 'a \<Rightarrow> 'a option) \<Rightarrow> 'a \<Rightarrow> 'a option" where
  "for_lt 0 i hi body a = None"
| "for_lt (Suc n) i hi body a =
     (if sint i < hi
      then (case body i a of None \<Rightarrow> None | Some a' \<Rightarrow> for_lt n (i + 1) hi body a')
      else Some a)"

subsection \<open>Initialisation\<close>

definition count_neighbors :: "nat \<Rightarrow> SBoard \<Rightarrow> TCell \<Rightarrow> TCell \<Rightarrow> TCell option" where
  "count_neighbors n s y x =
     for_le n (word_of_int (sint y - 1)) (sint y + 1)
       (\<lambda>h count.
          for_le n (word_of_int (sint x - 1)) (sint x + 1)
            (\<lambda>w count.
               Some (if is_valid s h w \<and> \<not> (h = y \<and> w = x)
                     then (if get s h w = MINE then count + 1 else count)
                     else count))
            count)
       0"

text \<open>The loop \<^verbatim>\<open>while (minesAdded < mines)\<close> of \<^verbatim>\<open>init\<close>.\<close>

fun add_mines :: "nat \<Rightarrow> (nat \<Rightarrow> nat) \<Rightarrow> nat \<Rightarrow> TCell \<Rightarrow> SBoard \<Rightarrow> (nat \<times> SBoard) option" where
  "add_mines 0 rng p minesAdded s = None"
| "add_mines (Suc n) rng p minesAdded s =
     (if sint minesAdded < sint (mines s)
      then (let (y, p1) = random rng p 0 (sint (height s));
                (x, p2) = random rng p1 0 (sint (width s))
            in if get s y x = 0
               then add_mines n rng p2 (minesAdded + 1) (set_cell s y x MINE)
               else add_mines n rng p2 minesAdded s)
      else Some (p, s))"

text \<open>The two nested loops of \<^verbatim>\<open>init\<close> that store the neighbour counts.\<close>

definition count_all :: "nat \<Rightarrow> SBoard \<Rightarrow> SBoard option" where
  "count_all n s =
     for_lt n 0 (sint (height s))
       (\<lambda>h s.
          for_lt n 0 (sint (width s))
            (\<lambda>w s.
               if get s h w \<noteq> MINE
               then (case count_neighbors n s h w of
                       None \<Rightarrow> None
                     | Some c \<Rightarrow> Some (set_cell s h w (word_of_int (sint c + 48))))
               else Some s)
            s)
       s"

text \<open>
  \<^verbatim>\<open>init\<close>: both arrays are allocated with \<^verbatim>\<open>sizeof(TCell) * width * height\<close> bytes and
  zeroed. The size is a product in \<^verbatim>\<open>size_t\<close>, that is width * height modulo \<open>2 ^ 64\<close>.
  When exactly one dimension is negative it lies just below \<open>2 ^ 64\<close>: \<^verbatim>\<open>malloc\<close>
  fails and \<^verbatim>\<open>bzero\<close> writes through the null pointer, so \<^verbatim>\<open>init\<close> does not return.
  Otherwise the size is the product itself.
\<close>

definition init :: "nat \<Rightarrow> (nat \<Rightarrow> nat) \<Rightarrow> nat \<times> SBoard \<Rightarrow> (nat \<times> SBoard) option" where
  "init n rng ps =
     (let (p, s) = ps
      in if sint (width s) * sint (height s) < 0 then None
         else
           let cells = nat (sint (width s) * sint (height s));
               s = s\<lparr>done_flag := False, win := False, lose := False,
                     revealCount := 0, flagCount := 0,
                     board := replicate cells 0, input_board := replicate cells 0\<rparr>
           in case add_mines n rng p 0 s of
                None \<Rightarrow> None
              | Some (p', s') \<Rightarrow> map_option (Pair p') (count_all n s'))"

text \<open>The constructor: the cursor at the origin, then \<^verbatim>\<open>init\<close>.\<close>

definition SBoard_new :: "nat \<Rightarrow> (nat \<Rightarrow> nat) \<Rightarrow> nat \<Rightarrow> TCell \<Rightarrow> TCell \<Rightarrow> TCell \<Rightarrow> (nat \<times> SBoard) option" where
  "SBoard_new n rng p h w m =
     init n rng (p, \<lparr>curY = 0, curX = 0, done_flag = False, win = False, lose = False,
                     revealCount = 0, flagCount = 0, height = h, width = w, mines = m,
                     board = [], input_board = []\<rparr>)"

subsection \<open>Reveal\<close>

fun r_reveal :: "nat \<Rightarrow> TCell \<Rightarrow> TCell \<Rightarrow> SBoard \<Rightarrow> SBoard option" where
  "r_reveal 0 y x s = None"
| "r_reveal (Suc n) y x s =
     (if \<not> is_done s then
        if geti s y x = FLAGGED then Some s
        else
          let s = (if geti s y x \<noteq> REVEAL
                   then (seti s y x REVEAL)\<lparr>revealCount := revealCount s + 1\<rparr>
                   else s)
          in if get s y x = MINE
             then Some (s\<lparr>win := False, lose := True, done_flag := True\<rparr>)
             else if sint (revealCount s) \<ge> sint (max_reveal s)
             then Some (s\<lparr>win := True, lose := False, done_flag := True\<rparr>)
             else if get s y x = 48
             then for_le n (word_of_int (sint y - 1)) (sint y + 1)
                    (\<lambda>h s.
                       for_le n (word_of_int (sint x - 1)) (sint x + 1)
                         (\<lambda>w s.
                            if is_valid s h w \<and> \<not> (h = y \<and> w = x) \<and> geti s h w \<noteq> REVEAL
                            then r_reveal n h w s
                            else Some s)
                         s)
                    s
             else Some s
      else Some s)"

text \<open>The loop \<^verbatim>\<open>while (revealCount == 0 && get(curY, curX) == MINE) init();\<close>\<close>

fun first_reveal_loop :: "nat \<Rightarrow> (nat \<Rightarrow> nat) \<Rightarrow> nat \<times> SBoard \<Rightarrow> (nat \<times> SBoard) option" where
  "first_reveal_loop 0 rng ps = None"
| "first_reveal_loop (Suc n) rng ps =
     (if revealCount (snd ps) = 0 \<and> get (snd ps) (curY (snd ps)) (curX (snd ps)) = MINE
      then (case init n rng ps of
              None \<Rightarrow> None
            | Some ps' \<Rightarrow> first_reveal_loop n rng ps')
      else Some ps)"

definition reveal :: "nat \<Rightarrow> (nat \<Rightarrow> nat) \<Rightarrow> nat \<times> SBoard \<Rightarrow> (nat \<times> SBoard) option" where
  "reveal n rng ps =
     (case first_reveal_loop n rng ps of
        None \<Rightarrow> None
      | Some (p, s) \<Rightarrow> map_option (Pair p) (r_reveal n (curY s) (curX s) s))"

subsection \<open>Flag and cursor\<close>

definition flag :: "SBoard \<Rightarrow> SBoard" where
  "flag s =
     (if geti s (curY s) (curX s) = BLANK
      then (seti s (curY s) (curX s) FLAGGED)\<lparr>flagCount := flagCount s + 1\<rparr>
      else if geti s (curY s) (curX s) = FLAGGED
      then (seti s (curY s) (curX s) BLANK)\<lparr>flagCount := flagCount s - 1\<rparr>
      else s)"

definition move_cur :: "TCell \<Rightarrow> TCell \<Rightarrow> SBoard \<Rightarrow> SBoard" where
  "move_cur dy dx s =
     (let newY = (word_of_int (sint dy + sint (curY s)) :: TCell);
          newX = (word_of_int (sint dx + sint (curX s)) :: TCell)
      in if is_valid s newY newX then s\<lparr>curY := newY, curX := newX\<rparr> else s)"

subsection \<open>The input loop\<close>

text \<open>
  The commands the key mapping of \<^verbatim>\<open>minesweeper\<close> issues (\<open>Idle\<close> is a time-out of
  \<^verbatim>\<open>wgetch\<close> or a key without a binding), and its loop
  \<^verbatim>\<open>while (!board.is_done())\<close> over the keys read so far.
\<close>

datatype command = MoveDown | MoveUp | MoveLeft | MoveRight | Reveal | Flag | Quit | Idle

fun dispatch :: "nat \<Rightarrow> (nat \<Rightarrow> nat) \<Rightarrow> command \<Rightarrow> nat \<times> SBoard \<Rightarrow> (nat \<times> SBoard) option" where
  "dispatch n rng MoveDown (p, s) = Some (p, move_cur 1 0 s)"
| "dispatch n rng MoveUp (p, s) = Some (p, move_cur (- 1) 0 s)"
| "dispatch n rng MoveLeft (p, s) = Some (p, move_cur 0 (- 1) s)"
| "dispatch n rng MoveRight (p, s) = Some (p, move_cur 0 1 s)"
| "dispatch n rng Reveal (p, s) = reveal n rng (p, s)"
| "dispatch n rng Flag (p, s) = Some (p, flag s)"
| "dispatch n rng Quit (p, s) = Some (p, quit s)"
| "dispatch n rng Idle (p, s) = Some (p, s)"

fun main_loop :: "nat \<Rightarrow> (nat \<Rightarrow> nat) \<Rightarrow> command list \<Rightarrow> nat \<times> SBoard \<Rightarrow> (nat \<times> SBoard) option" where
  "main_loop n rng [] ps = Some ps"
| "main_loop n rng (k # ks) ps =
     (if \<not> is_done (snd ps)
      then (case dispatch n rng k ps of
              None \<Rightarrow> None
            | Some ps' \<Rightarrow> main_loop n rng ks ps')
      else Some ps)"

text \<open>A sequence of calls of \<^verbatim>\<open>move_cur\<close>.\<close>

fun moves :: "(TCell \<times> TCell) list \<Rightarrow> SBoard \<Rightarrow> SBoard" where
  "moves [] s = s"
| "moves ((dy, dx) # ds) s = moves ds (move_cur dy dx s)"

subsection \<open>The neighbour count of the specification\<close>

text \<open>
  The specification's count for a cell: the number of cells of its Moore
  neighbourhood that lie inside the grid and hold a mine. It is stated on integer
  coordinates and on the mine layer alone, independently of \<^verbatim>\<open>count_neighbors\<close>.
\<close>

definition mine_at :: "SBoard \<Rightarrow> int \<Rightarrow> int \<Rightarrow> bool" where
  "mine_at s i j \<longleftrightarrow>
     0 \<le> i \<and> i < sint (height s) \<and> 0 \<le> j \<and> j < sint (width s) \<and>
     board s ! nat (j * sint (height s) + i) = MINE"

definition moore :: "(int \<times> int) list" where
  "moore = [(- 1, - 1), (- 1, 0), (- 1, 1), (0, - 1), (0, 1), (1, - 1), (1, 0), (1, 1)]"

definition adjacent_mines :: "SBoard \<Rightarrow> int \<Rightarrow> int \<Rightarrow> nat" where
  "adjacent_mines s i j = length (filter (\<lambda>(di, dj). mine_at s (i + di) (j + dj)) moore)"

text \<open>Every cell of the grid that is not a mine stores the digit of its count.\<close>

definition counts_ok :: "SBoard \<Rightarrow> bool" where
  "counts_ok s \<longleftrightarrow>
     (\<forall>y x. is_valid s y x \<longrightarrow> get s y x \<noteq> MINE \<longrightarrow>
        get s y x = 48 + of_nat (adjacent_mines s (sint y) (sint x)))"

subsection \<open>Well-formed boards\<close>

text \<open>
  \<open>wf_i\<close>: the visibility layer has one entry per cell. \<open>hidden\<close> counts its entries
  that are not REVEALED. \<open>loops_exit\<close>: no cell with count 0 lies in row or
  column 126, where the loops over the neighbours could not leave
  (\<^verbatim>\<open>h <= y + 1\<close> holds for every \<^verbatim>\<open>TCell h\<close> when \<open>y = 126\<close>); \<^verbatim>\<open>init\<close> only
  returns boards of this kind.
\<close>

definition wf_i :: "SBoard \<Rightarrow> bool" where
  "wf_i s \<longleftrightarrow> length (input_board s) = nat (sint (width s) * sint (height s))"

definition hidden :: "SBoard \<Rightarrow> nat" where
  "hidden s = length (filter (\<lambda>v. v \<noteq> REVEAL) (input_board s))"

definition loops_exit :: "SBoard \<Rightarrow> bool" where
  "loops_exit s \<longleftrightarrow> (\<forall>y x. is_valid s y x \<longrightarrow> get s y x = 48 \<longrightarrow> sint y < 126 \<and> sint x < 126)"

subsection \<open>Invariants of the loops of \<^verbatim>\<open>init\<close>\<close>

text \<open>
  \<open>placing\<close> holds at the head of the loop that places the mines, \<open>counting\<close>
  during the loops that store the counts: \<open>s0\<close> is the board before these loops
  and \<open>D\<close> tells which cells have been visited.
\<close>

definition placing :: "SBoard \<Rightarrow> TCell \<Rightarrow> bool" where
  "placing s minesAdded \<longleftrightarrow>
     length (board s) = nat (sint (width s) * sint (height s)) \<and>
     sint minesAdded = int (count_list (board s) MINE) \<and>
     sint minesAdded \<le> max 0 (sint (mines s)) \<and>
     (\<forall>i < length (board s). board s ! i = 0 \<or> board s ! i = MINE)"

definition counting :: "SBoard \<Rightarrow> SBoard \<Rightarrow> (int \<Rightarrow> int \<Rightarrow> bool) \<Rightarrow> bool" where
  "counting s0 s D \<longleftrightarrow>
     s = s0\<lparr>board := board s\<rparr> \<and>
     length (board s) = length (board s0) \<and>
     count_list (board s) MINE = count_list (board s0) MINE \<and>
     (\<forall>i j. mine_at s i j = mine_at s0 i j) \<and>
     (\<forall>y x. is_valid s0 y x \<longrightarrow> D (sint y) (sint x) \<longrightarrow> get s y x \<noteq> MINE \<longrightarrow>
        get s y x = 48 + of_nat (adjacent_mines s0 (sint y) (sint x)) \<and>
        sint y < 126 \<and> sint x < 126)"

subsection \<open>The cells that the placement loop draws\<close>

text \<open>
  Round \<open>k\<close> of the loop \<^verbatim>\<open>while (minesAdded < mines)\<close>, counted from 0, calls
  \<^verbatim>\<open>random(0, height)\<close> and then \<^verbatim>\<open>random(0, width)\<close>. On a board with at least one
  row and one column each call takes one value of \<^verbatim>\<open>rand()\<close>, so when the loop
  starts at position \<open>p\<close> the round selects the cell \<open>draw rng p h w k\<close>.
  \<open>drawn rng p h w k\<close> lists the different cells of the first \<open>k\<close> rounds.
  \<open>placed\<close> holds at the head of round \<open>j\<close>: the mines are at the cells drawn so
  far.
\<close>

definition draw :: "(nat \<Rightarrow> nat) \<Rightarrow> nat \<Rightarrow> TCell \<Rightarrow> TCell \<Rightarrow> nat \<Rightarrow> TCell \<times> TCell" where
  "draw rng p h w k =
     (fst (random rng (p + 2 * k) 0 (sint h)), fst (random rng (p + 2 * k + 1) 0 (sint w)))"

definition drawn :: "(nat \<Rightarrow> nat) \<Rightarrow> nat \<Rightarrow> TCell \<Rightarrow> TCell \<Rightarrow> nat \<Rightarrow> (TCell \<times> TCell) list" where
  "drawn rng p h w k = remdups (map (draw rng p h w) [0..<k])"

definition placed :: "(nat \<Rightarrow> nat) \<Rightarrow> nat \<Rightarrow> SBoard \<Rightarrow> nat \<Rightarrow> TCell \<Rightarrow> bool" where
  "placed rng p s j minesAdded \<longleftrightarrow>
     length (board s) = nat (sint (width s) * sint (height s)) \<and>
     (\<forall>i < length (board s). board s ! i = 0 \<or> board s ! i = MINE) \<and>
     (\<forall>y x. is_valid s y x \<longrightarrow>
        (get s y x = MINE \<longleftrightarrow> (y, x) \<in> draw rng p (height s) (width s) ` {..<j})) \<and>
     sint minesAdded = int (card (draw rng p (height s) (width s) ` {..<j}))"

subsection \<open>The parts of \<^verbatim>\<open>r_reveal\<close>\<close>

text \<open>
  Names for the parts of \<^verbatim>\<open>r_reveal\<close>: \<open>mark\<close> is the block that reveals the cell,
  \<open>step\<close> the body of the inner loop and \<open>spread\<close> the two loops over the
  neighbours. \<open>r_frame\<close> lists what \<^verbatim>\<open>r_reveal\<close> never changes.
\<close>

definition mark :: "SBoard \<Rightarrow> TCell \<Rightarrow> TCell \<Rightarrow> SBoard" where
  "mark s y x =
     (if geti s y x \<noteq> REVEAL
      then (seti s y x REVEAL)\<lparr>revealCount := revealCount s + 1\<rparr>
      else s)"

definition step :: "nat \<Rightarrow> TCell \<Rightarrow> TCell \<Rightarrow> TCell \<Rightarrow> TCell \<Rightarrow> SBoard \<Rightarrow> SBoard option" where
  "step n y x h w s =
     (if is_valid s h w \<and> \<not> (h = y \<and> w = x) \<and> geti s h w \<noteq> REVEAL
      then r_reveal n h w s
      else Some s)"

definition spread :: "nat \<Rightarrow> TCell \<Rightarrow> TCell \<Rightarrow> SBoard \<Rightarrow> SBoard option" where
  "spread n y x s =
     for_le n (word_of_int (sint y - 1)) (sint y + 1)
       (\<lambda>h s. for_le n (word_of_int (sint x - 1)) (sint x + 1) (\<lambda>w s. step n y x h w s) s)
       s"

definition r_frame :: "SBoard \<Rightarrow> SBoard \<Rightarrow> bool" where
  "r_frame s s' \<longleftrightarrow>
     board s' = board s \<and> height s' = height s \<and> width s' = width s \<and> mines s' = mines s \<and>
     curY s' = curY s \<and> curX s' = curX s \<and> flagCount s' = flagCount s \<and>
     length (input_board s') = length (input_board s)"

subsection \<open>The flood fill with a log of its visits\<close>

text \<open>
  \<^verbatim>\<open>r_reveal\<close> once more, with a second component that records the visits, the
  latest first: a call visits its cell when it has passed the tests
  \<^verbatim>\<open>if (!done)\<close> and \<^verbatim>\<open>if (geti(y, x) == FLAGGED) return;\<close>. The first component is
  \<^verbatim>\<open>r_reveal\<close> itself (lemma \<open>r_reveal_visits_fst\<close>).
\<close>

fun r_reveal_visits :: "nat \<Rightarrow> TCell \<Rightarrow> TCell \<Rightarrow> SBoard \<times> (TCell \<times> TCell) list \<Rightarrow>
    (SBoard \<times> (TCell \<times> TCell) list) option" where
  "r_reveal_visits 0 y x sl = None"
| "r_reveal_visits (Suc n) y x sl =
     (let s = fst sl; l = snd sl in
      if \<not> is_done s then
        if geti s y x = FLAGGED then Some (s, l)
        else
          let l = (y, x) # l;
              s = (if geti s y x \<noteq> REVEAL
                   then (seti s y x REVEAL)\<lparr>revealCount := revealCount s + 1\<rparr>
                   else s)
          in if get s y x = MINE
             then Some (s\<lparr>win := False, lose := True, done_flag := True\<rparr>, l)
             else if sint (revealCount s) \<ge> sint (max_reveal s)
             then Some (s\<lparr>win := True, lose := False, done_flag := True\<rparr>, l)
             else if get s y x = 48
             then for_le n (word_of_int (sint y - 1)) (sint y + 1)
                    (\<lambda>h sl.
                       for_le n (word_of_int (sint x - 1)) (sint x + 1)
                         (\<lambda>w sl.
                            if is_valid (fst sl) h w \<and> \<not> (h = y \<and> w = x) \<and>
                               geti (fst sl) h w \<noteq> REVEAL
                            then r_reveal_visits n h w sl
                            else Some sl)
                         sl)
                    (s, l)
             else Some (s, l)
      else Some (s, l))"

definition step_visits :: "nat \<Rightarrow> TCell \<Rightarrow> TCell \<Rightarrow> TCell \<Rightarrow> TCell \<Rightarrow>
    SBoard \<times> (TCell \<times> TCell) list \<Rightarrow> (SBoard \<times> (TCell \<times> TCell) list) option" where
  "step_visits n y x h w sl =
     (if is_valid (fst sl) h w \<and> \<not> (h = y \<and> w = x) \<and> geti (fst sl) h w \<noteq> REVEAL
      then r_reveal_visits n h w sl
      else Some sl)"

definition spread_visits :: "nat \<Rightarrow> TCell \<Rightarrow> TCell \<Rightarrow>
    SBoard \<times> (TCell \<times> TCell) list \<Rightarrow> (SBoard \<times> (TCell \<times> TCell) list) option" where
  "spread_visits n y x sl =
     for_le n (word_of_int (sint y - 1)) (sint y + 1)
       (\<lambda>h sl. for_le n (word_of_int (sint x - 1)) (sint x + 1) (\<lambda>w sl. step_visits n y x h w sl) sl)
       sl"

text \<open>
  The nine cells that the two loops over the neighbours go through, in their
  order, and a body run over a list of cells.
\<close>

fun seq_cells :: "(TCell \<Rightarrow> TCell \<Rightarrow> 'a \<Rightarrow> 'a option) \<Rightarrow> (TCell \<times> TCell) list \<Rightarrow> 'a \<Rightarrow> 'a option" where
  "seq_cells f [] a = Some a"
| "seq_cells f ((h, w) # cs) a = (case f h w a of None \<Rightarrow> None | Some b \<Rightarrow> seq_cells f cs b)"

definition nbrs :: "TCell \<Rightarrow> TCell \<Rightarrow> (TCell \<times> TCell) list" where
  "nbrs y x = [(y - 1, x - 1), (y - 1, x), (y - 1, x + 1),
               (y, x - 1), (y, x), (y, x + 1),
               (y + 1, x - 1), (y + 1, x), (y + 1, x + 1)]"

subsection \<open>The region of a flood fill\<close>

text \<open>
  \<open>near y x h w\<close>: the cell (h, w) is one of the eight neighbours of (y, x).
  \<open>flood s y0 x0\<close> is the set of cells that a fill started at (y0, x0) in the
  state \<open>s\<close> can reach: the start cell unless it is flagged, and every neighbour
  of a reached cell with count 0 that is inside the grid, not yet REVEALED and
  not FLAGGED.
\<close>

definition near :: "TCell \<Rightarrow> TCell \<Rightarrow> TCell \<Rightarrow> TCell \<Rightarrow> bool" where
  "near y x h w \<longleftrightarrow>
     sint y - 1 \<le> sint h \<and> sint h \<le> sint y + 1 \<and>
     sint x - 1 \<le> sint w \<and> sint w \<le> sint x + 1 \<and> \<not> (h = y \<and> w = x)"

inductive flood :: "SBoard \<Rightarrow> TCell \<Rightarrow> TCell \<Rightarrow> TCell \<Rightarrow> TCell \<Rightarrow> bool"
  for s :: SBoard and y0 :: TCell and x0 :: TCell where
  start: "is_valid s y0 x0 \<Longrightarrow> geti s y0 x0 \<noteq> FLAGGED \<Longrightarrow> flood s y0 x0 y0 x0"
| spread: "flood s y0 x0 y x \<Longrightarrow> get s y x = 48 \<Longrightarrow> near y x h w \<Longrightarrow> is_valid s h w \<Longrightarrow>
     geti s h w \<noteq> REVEAL \<Longrightarrow> geti s h w \<noteq> FLAGGED \<Longrightarrow> flood s y0 x0 h w"

text \<open>
  The region as the specification describes it: the zero-count cells connected
  to the start and their border, where only flags stop the propagation.
\<close>

inductive claimed_region :: "SBoard \<Rightarrow> TCell \<Rightarrow> TCell \<Rightarrow> TCell \<Rightarrow> TCell \<Rightarrow> bool"
  for s :: SBoard and y0 :: TCell and x0 :: TCell where
  origin: "is_valid s y0 x0 \<Longrightarrow> geti s y0 x0 \<noteq> FLAGGED \<Longrightarrow> claimed_region s y0 x0 y0 x0"
| border: "claimed_region s y0 x0 y x \<Longrightarrow> get s y x = 48 \<Longrightarrow> near y x h w \<Longrightarrow> is_valid s h w \<Longrightarrow>
     geti s h w \<noteq> FLAGGED \<Longrightarrow> claimed_region s y0 x0 h w"

text \<open>
  Relations between the state before and after a call of \<^verbatim>\<open>r_reveal\<close>: \<open>grows\<close>
  (cells only change to REVEALED, and never from FLAGGED), \<open>counted\<close> (revealCount
  goes up by the number of cells revealed), and, for the cells revealed by the
  call that have count 0, \<open>closed\<close>: all their neighbours are REVEALED or FLAGGED.
\<close>

definition grows :: "SBoard \<Rightarrow> SBoard \<Rightarrow> bool" where
  "grows s s' \<longleftrightarrow>
     r_frame s s' \<and> (is_done s \<longrightarrow> is_done s') \<and>
     (\<forall>h w. geti s' h w = geti s h w \<or> (geti s' h w = REVEAL \<and> geti s h w \<noteq> FLAGGED))"

definition closed :: "SBoard \<Rightarrow> TCell \<Rightarrow> TCell \<Rightarrow> bool" where
  "closed s y x \<longleftrightarrow>
     (\<forall>h w. near y x h w \<longrightarrow> is_valid s h w \<longrightarrow> geti s h w = REVEAL \<or> geti s h w = FLAGGED)"

definition fresh_closed :: "SBoard \<Rightarrow> SBoard \<Rightarrow> TCell \<Rightarrow> TCell \<Rightarrow> bool" where
  "fresh_closed s s' y x \<longleftrightarrow>
     (\<forall>h w. is_valid s h w \<longrightarrow> geti s' h w = REVEAL \<longrightarrow>
        (geti s h w \<noteq> REVEAL \<or> (h = y \<and> w = x)) \<longrightarrow> get s h w = 48 \<longrightarrow> closed s' h w)"

definition counted :: "SBoard \<Rightarrow> SBoard \<Rightarrow> bool" where
  "counted s s' \<longleftrightarrow>
     hidden s' \<le> hidden s \<and> revealCount s' = revealCount s + of_nat (hidden s - hidden s')"

text \<open>
  \<open>fresh_visits s s' l\<close>: the cells of \<open>l\<close> are different cells of the grid that were
  not REVEALED in \<open>s\<close> and are REVEALED in \<open>s'\<close>.
\<close>

definition fresh_visits :: "SBoard \<Rightarrow> SBoard \<Rightarrow> (TCell \<times> TCell) list \<Rightarrow> bool" where
  "fresh_visits s s' l \<longleftrightarrow>
     distinct l \<and>
     (\<forall>(h, w) \<in> set l. is_valid s h w \<and> geti s h w \<noteq> REVEAL \<and> geti s' h w = REVEAL)"

subsection \<open>The states of a game\<close>

text \<open>
  The states that \<^verbatim>\<open>minesweeper\<close> can be in: the board as the constructor leaves
  it (with at least one row and one column), and every state that a key leads to
  while the game is not done. \<open>board_inv\<close> collects what holds in all of them.
\<close>

inductive reachable :: "(nat \<Rightarrow> nat) \<Rightarrow> nat \<times> SBoard \<Rightarrow> bool" for rng :: "nat \<Rightarrow> nat" where
  built: "1 \<le> sint h \<Longrightarrow> 1 \<le> sint w \<Longrightarrow> SBoard_new n rng p h w m = Some ps \<Longrightarrow> reachable rng ps"
| key: "reachable rng ps \<Longrightarrow> \<not> is_done (snd ps) \<Longrightarrow> dispatch n rng k ps = Some ps' \<Longrightarrow>
     reachable rng ps'"

definition board_inv :: "SBoard \<Rightarrow> bool" where
  "board_inv s \<longleftrightarrow> counts_ok s \<and> wf_i s \<and> loops_exit s \<and> is_valid s (curY s) (curX s)"

subsection \<open>Example boards\<close>

text \<open>
  A 1 x 3 board whose mine is at column 0: the player has flagged the mine and
  revealed the cell next to it. The cursor is on the flag.
\<close>

definition board_1x3 :: SBoard where
  "board_1x3 = \<lparr>curY = 0, curX = 0, done_flag = False, win = False, lose = False,
     revealCount = 1, flagCount = 1, height = 1, width = 3, mines = 1,
     board = [42, 49, 48], input_board = [70, 82, 0]\<rparr>"

text \<open>
  The 1 x 2 board that \<^verbatim>\<open>SBoard(1, 2, 1)\<close> builds when \<^verbatim>\<open>rand()\<close> yields 0, 1, ...:
  the mine is at column 1. Revealing column 0 wins the game.
\<close>

definition fresh_1x2 :: SBoard where
  "fresh_1x2 = \<lparr>curY = 0, curX = 0, done_flag = False, win = False, lose = False,
     revealCount = 0, flagCount = 0, height = 1, width = 2, mines = 1,
     board = [49, 42], input_board = [0, 0]\<rparr>"

definition won_1x2 :: SBoard where
  "won_1x2 = \<lparr>curY = 0, curX = 0, done_flag = True, win = True, lose = False,
     revealCount = 1, flagCount = 0, height = 1, width = 2, mines = 1,
     board = [49, 42], input_board = [82, 0]\<rparr>"

text \<open>
  A board of the expert preset (16 x 30, 99 mines) with 124 cells counted as
  revealed, and a 1 x 1 board that is asked to hold 2 mines.
\<close>

definition expert_late :: SBoard where
  "expert_late = \<lparr>curY = 0, curX = 0, done_flag = False, win = False, lose = False,
     revealCount = 124, flagCount = 0, height = 16, width = 30, mines = 99,
     board = replicate 480 49, input_board = replicate 480 0\<rparr>"

definition overfull_1x1 :: SBoard where
  "overfull_1x1 = \<lparr>curY = 0, curX = 0, done_flag = False, win = False, lose = False,
     revealCount = 0, flagCount = 0, height = 1, width = 1, mines = 2,
     board = [], input_board = []\<rparr>"

text \<open>The 3 x 3 board that \<^verbatim>\<open>SBoard(3, 3, 2)\<close> builds when \<^verbatim>\<open>rand()\<close> yields 0, 1, 2, ...\<close>

definition fresh_3x3 :: SBoard where
  "fresh_3x3 = \<lparr>curY = 0, curX = 0, done_flag = False, win = False, lose = False,
     revealCount = 0, flagCount = 0, height = 3, width = 3, mines = 2,
     board = [49, 50, 42, 42, 50, 49, 49, 49, 48],
     input_board = [0, 0, 0, 0, 0, 0, 0, 0, 0]\<rparr>"

text \<open>
  The board after the first \<^verbatim>\<open>reveal()\<close> on \<open>fresh_3x3\<close> with the cursor on the mine
  at row 0, column 1: the board was built anew twice.
\<close>

definition first_3x3 :: SBoard where
  "first_3x3 = \<lparr>curY = 0, curX = 1, done_flag = False, win = False, lose = False,
        revealCount = 1, flagCount = 0, height = 3, width = 3, mines = 2,
        board = [48, 49, 42, 49, 50, 50, 49, 42, 49],
        input_board = [0, 0, 0, 82, 0, 0, 0, 0, 0]\<rparr>"

text \<open>
  The 3 x 3 board without mines that \<^verbatim>\<open>SBoard(3, 3, 0)\<close> builds, after the keys
  down, right, flag, up, left: the centre is flagged, the cursor is back at the
  origin.
\<close>

definition ring_3x3 :: SBoard where
  "ring_3x3 = \<lparr>curY = 0, curX = 0, done_flag = False, win = False, lose = False,
     revealCount = 0, flagCount = 1, height = 3, width = 3, mines = 0,
     board = [48, 48, 48, 48, 48, 48, 48, 48, 48],
     input_board = [0, 0, 0, 0, 70, 0, 0, 0, 0]\<rparr>"

definition ring_3x3_filled :: SBoard where
  "ring_3x3_filled = \<lparr>curY = 0, curX = 0, done_flag = False, win = False, lose = False,
     revealCount = 8, flagCount = 1, height = 3, width = 3, mines = 0,
     board = [48, 48, 48, 48, 48, 48, 48, 48, 48],
     input_board = [82, 82, 82, 82, 70, 82, 82, 82, 82]\<rparr>"

definition ring_3x3_visits :: "(TCell \<times> TCell) list" where
  "ring_3x3_visits = [(2, 2), (2, 0), (1, 0), (2, 1), (1, 2), (0, 2), (0, 1), (0, 0)]"

text \<open>
  A 1 x 7 board with its mine at column 6, reached by flagging columns 1 and 3,
  revealing column 2 and removing both flags; and the board after \<^verbatim>\<open>reveal()\<close> at
  column 1.
\<close>

definition stale_1x7 :: SBoard where
  "stale_1x7 = \<lparr>curY = 0, curX = 1, done_flag = False, win = False, lose = False,
     revealCount = 1, flagCount = 0, height = 1, width = 7, mines = 1,
     board = [48, 48, 48, 48, 48, 49, 42], input_board = [0, 0, 82, 0, 0, 0, 0]\<rparr>"

definition stale_1x7_after :: SBoard where
  "stale_1x7_after = \<lparr>curY = 0, curX = 1, done_flag = False, win = False, lose = False,
     revealCount = 3, flagCount = 0, height = 1, width = 7, mines = 1,
     board = [48, 48, 48, 48, 48, 49, 42], input_board = [82, 82, 82, 0, 0, 0, 0]\<rparr>"

text \<open>
  The intermediate preset, 16 x 16 with 40 mines: values of \<^verbatim>\<open>rand()\<close> whose rounds
  select the cells of the board one after the other, and the keys that flag 127
  cells, down the first column, up the second, and so on, leaving the cursor on
  the last cell of the eighth column.
\<close>

definition intermediate_rng :: "nat \<Rightarrow> nat" where
  "intermediate_rng i = (if even i then i div 2 else i div 32)"

definition column_down :: "command list" where
  "column_down = concat (replicate 15 [Flag, MoveDown]) @ [Flag, MoveRight]"

definition column_up :: "command list" where
  "column_up = concat (replicate 15 [Flag, MoveUp]) @ [Flag, MoveRight]"

definition flag_127_keys :: "command list" where
  "flag_127_keys = butlast (butlast (concat (replicate 4 (column_down @ column_up))))"

section \<open>Basic facts\<close>

lemmas cell_defs = ERROR_def MINE_def REVEAL_def FLAGGED_def WRONG_FLAG_def BLANK_def

lemma sint_TCell_le: "sint (x :: TCell) \<le> 127"
  using sint_lt[of x] by simp

lemma sint_TCell_ge: "- 128 \<le> sint (x :: TCell)"
  using sint_ge[of x] by simp

lemma sint_of_int_TCell: "- 128 \<le> i \<Longrightarrow> i \<le> 127 \<Longrightarrow> sint (word_of_int i :: TCell) = i"
  by (simp add: sint_sbintrunc' signed_take_bit_int_eq_self)

lemma sint_inc: "sint (x :: TCell) < 127 \<Longrightarrow> sint (x + 1) = sint x + 1"
  using sint_TCell_ge[of x]
  by (simp add: sint_word_add signed_take_bit_int_eq_self)

lemma sint_dec: "- 128 < sint (x :: TCell) \<Longrightarrow> sint (x - 1) = sint x - 1"
  using sint_TCell_le[of x]
  by (simp add: sint_word_ariths signed_take_bit_int_eq_self)

lemma word_of_int_sint_dec: "(word_of_int (sint (y::TCell) - 1) :: TCell) = y - 1"
  by simp

lemma for_le_top: "127 \<le> hi \<Longrightarrow> for_le n i hi body a = None"
proof (induction n arbitrary: i a)
  case 0
  then show ?case by simp
next
  case (Suc n)
  have "sint i \<le> hi" using sint_TCell_le[of i] Suc.prems by linarith
  then show ?case using Suc by (simp split: option.splits)
qed

lemma for_le_step:
  "for_le n i hi body a = Some a' \<Longrightarrow> sint i \<le> hi \<Longrightarrow>
   \<exists>m a1. n = Suc m \<and> body i a = Some a1 \<and> for_le m (i + 1) hi body a1 = Some a'"
  by (cases n) (auto split: option.splits)

lemma for_le_exit: "for_le n i hi body a = Some a' \<Longrightarrow> \<not> sint i \<le> hi \<Longrightarrow> a' = a"
  by (cases n) auto

lemma for_le3_Some:
  assumes r: "for_le n (y - 1) (sint y + 1) body a = Some a'" and lo: "- 127 \<le> sint y"
  shows "sint y < 126 \<and> (\<exists>a1 a2. body (y - 1) a = Some a1 \<and> body y a1 = Some a2 \<and> body (y + 1) a2 = Some a')"
proof -
  have lt: "sint y < 126"
  proof (rule ccontr)
    assume "\<not> sint y < 126"
    then have "127 \<le> sint y + 1" by simp
    from for_le_top[OF this, of n "y - 1" body a] r show False by simp
  qed
  have s0: "sint (y - 1) = sint y - 1" using lo by (simp add: sint_dec)
  have s1: "sint (y + 1) = sint y + 1" using lt by (simp add: sint_inc)
  have s2: "sint (y + 1 + 1) = sint y + 2" using lt s1 sint_inc[of "y + 1"] by simp
  from for_le_step[OF r] s0 obtain m1 a1 where
    1: "body (y - 1) a = Some a1" "for_le m1 (y - 1 + 1) (sint y + 1) body a1 = Some a'"
    by auto
  have e1: "y - 1 + 1 = y" by simp
  from for_le_step[OF 1(2)[unfolded e1]] obtain m2 a2 where
    2: "body y a1 = Some a2" "for_le m2 (y + 1) (sint y + 1) body a2 = Some a'"
    by auto
  from for_le_step[OF 2(2)] s1 obtain m3 a3 where
    3: "body (y + 1) a2 = Some a3" "for_le m3 (y + 1 + 1) (sint y + 1) body a3 = Some a'"
    by auto
  from for_le_exit[OF 3(2)] s2 have "a' = a3" by simp
  with 1 2 3 lt show ?thesis by simp
qed

lemma for_le3_enough:
  assumes "- 127 \<le> sint y" "sint y < 126"
    "body (y - 1) a = Some a1" "body y a1 = Some a2" "body (y + 1) a2 = Some a3"
  shows "for_le (Suc (Suc (Suc (Suc m)))) (y - 1) (sint y + 1) body a = Some a3"
proof -
  have s0: "sint (y - 1) = sint y - 1" using assms(1) by (simp add: sint_dec)
  have s1: "sint (y + 1) = sint y + 1" using assms(2) by (simp add: sint_inc)
  have s2: "sint (y + 1 + 1) = sint y + 2" using assms(2) s1 sint_inc[of "y + 1"] by simp
  have "for_le (Suc m) (y + 1 + 1) (sint y + 1) body a3 = Some a3" using s2 by simp
  then have "for_le (Suc (Suc m)) (y + 1) (sint y + 1) body a2 = Some a3"
    using s1 assms(5) by simp
  then have "for_le (Suc (Suc (Suc m))) (y - 1 + 1) (sint y + 1) body a1 = Some a3"
    using assms(4) by simp
  then show ?thesis
    using s0 assms(3) by simp
qed

lemma idx_less_int:
  fixes x y h w :: int
  assumes "0 \<le> y" "y < h" "0 \<le> x" "x < w"
  shows "x * h + y < w * h"
proof -
  have "x + 1 \<le> w" using assms by simp
  then have "(x + 1) * h \<le> w * h" using assms by (intro mult_right_mono) auto
  then show ?thesis using assms by (simp add: algebra_simps)
qed

lemma idx_inj_int:
  fixes x y h x' y' :: int
  assumes "0 \<le> y" "y < h" "0 \<le> y'" "y' < h" "x * h + y = x' * h + y'"
  shows "x = x' \<and> y = y'"
proof -
  have h: "h \<noteq> 0" using assms by auto
  have "(x * h + y) div h = x + y div h" using h by simp
  moreover have "(x' * h + y') div h = x' + y' div h" using h by simp
  moreover have "y div h = 0" "y' div h = 0" using assms by (simp_all add: div_pos_pos_trivial)
  ultimately have "x = x'" using assms(5) by simp
  then show ?thesis using assms(5) by simp
qed

lemma cell_index_less:
  "is_valid s y x \<Longrightarrow> cell_index s y x < nat (sint (width s) * sint (height s))"
  unfolding is_valid_def cell_index_def
  using idx_less_int[of "sint y" "sint (height s)" "sint x" "sint (width s)"]
  by (simp add: nat_less_iff)

lemma sint_eq_TCell: "sint (a :: TCell) = sint b \<Longrightarrow> a = b"
  by (rule signed_word_eqI)

lemma cell_index_inj:
  assumes "is_valid s y x" "is_valid s y' x'" "cell_index s y x = cell_index s y' x'"
  shows "y = y' \<and> x = x'"
proof -
  have nn: "0 \<le> sint x * sint (height s) + sint y" "0 \<le> sint x' * sint (height s) + sint y'"
    using assms(1,2) unfolding is_valid_def by auto
  then have "sint x * sint (height s) + sint y = sint x' * sint (height s) + sint y'"
    using assms(3) unfolding cell_index_def by (simp add: nat_eq_iff)
  from idx_inj_int[OF _ _ _ _ this] assms(1,2) have "sint x = sint x' \<and> sint y = sint y'"
    unfolding is_valid_def by simp
  then show ?thesis by (simp add: sint_eq_TCell)
qed

lemma is_valid_update [simp]:
  "is_valid (curY_update f1 s) y x = is_valid s y x"
  "is_valid (curX_update f2 s) y x = is_valid s y x"
  "is_valid (done_flag_update f3 s) y x = is_valid s y x"
  "is_valid (win_update f4 s) y x = is_valid s y x"
  "is_valid (lose_update f5 s) y x = is_valid s y x"
  "is_valid (revealCount_update f6 s) y x = is_valid s y x"
  "is_valid (flagCount_update f7 s) y x = is_valid s y x"
  "is_valid (mines_update f8 s) y x = is_valid s y x"
  "is_valid (board_update f9 s) y x = is_valid s y x"
  "is_valid (input_board_update f10 s) y x = is_valid s y x"
  by (simp_all add: is_valid_def)

lemma cell_index_update [simp]:
  "cell_index (curY_update f1 s) y x = cell_index s y x"
  "cell_index (curX_update f2 s) y x = cell_index s y x"
  "cell_index (done_flag_update f3 s) y x = cell_index s y x"
  "cell_index (win_update f4 s) y x = cell_index s y x"
  "cell_index (lose_update f5 s) y x = cell_index s y x"
  "cell_index (revealCount_update f6 s) y x = cell_index s y x"
  "cell_index (flagCount_update f7 s) y x = cell_index s y x"
  "cell_index (mines_update f8 s) y x = cell_index s y x"
  "cell_index (board_update f9 s) y x = cell_index s y x"
  "cell_index (input_board_update f10 s) y x = cell_index s y x"
  by (simp_all add: cell_index_def)

lemma get_update [simp]:
  "get (curY_update f1 s) y x = get s y x"
  "get (curX_update f2 s) y x = get s y x"
  "get (done_flag_update f3 s) y x = get s y x"
  "get (win_update f4 s) y x = get s y x"
  "get (lose_update f5 s) y x = get s y x"
  "get (revealCount_update f6 s) y x = get s y x"
  "get (flagCount_update f7 s) y x = get s y x"
  "get (mines_update f8 s) y x = get s y x"
  "get (input_board_update f9 s) y x = get s y x"
  by (simp_all add: get_def)

lemma geti_update [simp]:
  "geti (curY_update f1 s) y x = geti s y x"
  "geti (curX_update f2 s) y x = geti s y x"
  "geti (done_flag_update f3 s) y x = geti s y x"
  "geti (win_update f4 s) y x = geti s y x"
  "geti (lose_update f5 s) y x = geti s y x"
  "geti (revealCount_update f6 s) y x = geti s y x"
  "geti (flagCount_update f7 s) y x = geti s y x"
  "geti (mines_update f8 s) y x = geti s y x"
  "geti (board_update f9 s) y x = geti s y x"
  by (simp_all add: geti_def)

lemma is_valid_seti [simp]: "is_valid (seti s y x v) y' x' = is_valid s y' x'"
  by (simp add: seti_def is_valid_def)

lemma cell_index_seti [simp]: "cell_index (seti s y x v) y' x' = cell_index s y' x'"
  by (simp add: seti_def cell_index_def)

lemma geti_seti:
  "length (input_board s) = nat (sint (width s) * sint (height s)) \<Longrightarrow>
   geti (seti s y x v) y' x' = (if is_valid s y x \<and> y' = y \<and> x' = x then v else geti s y' x')"
proof (cases "is_valid s y x")
  case False
  then show ?thesis by (simp add: geti_def seti_def)
next
  case True
  assume len: "length (input_board s) = nat (sint (width s) * sint (height s))"
  show ?thesis
  proof (cases "is_valid s y' x'")
    case False
    then show ?thesis using True by (auto simp: geti_def)
  next
    case v': True
    have lt: "cell_index s y x < length (input_board s)"
      using cell_index_less[OF True] len by simp
    show ?thesis
    proof (cases "y' = y \<and> x' = x")
      case True
      then show ?thesis using \<open>is_valid s y x\<close> lt by (simp add: geti_def seti_def)
    next
      case False
      then have "cell_index s y x \<noteq> cell_index s y' x'"
        using cell_index_inj[OF \<open>is_valid s y x\<close> v'] by auto
      then show ?thesis using False v' \<open>is_valid s y x\<close>
        by (auto simp: geti_def seti_def)
    qed
  qed
qed

lemma r_reveal_flagged: "geti s y x = FLAGGED \<Longrightarrow> r_reveal (Suc n) y x s = Some s"
  by (simp add: is_done_def)

lemma r_reveal_done: "done_flag s \<Longrightarrow> r_reveal (Suc n) y x s = Some s"
  by (simp add: is_done_def)
lemma seti_seti_restore:
  assumes "is_valid s y x" "geti s y x = v"
  shows "(seti ((seti s y x u)\<lparr>flagCount := c\<rparr>) y x v)\<lparr>flagCount := flagCount s\<rparr> = s"
proof -
  have "v = input_board s ! cell_index s y x" using assms by (simp add: geti_def)
  then have "(input_board s)[cell_index s y x := u, cell_index s y x := v] = input_board s"
    by (simp only: list_update_overwrite list_update_id)
  then show ?thesis using assms(1) by (simp add: seti_def)
qed

lemma geti_valid: "geti s y x \<noteq> ERROR \<Longrightarrow> is_valid s y x"
  by (auto simp: geti_def split: if_splits)

lemma flag_blank:
  assumes len: "length (input_board s) = nat (sint (width s) * sint (height s))"
    and b: "geti s (curY s) (curX s) = BLANK"
  shows "geti (flag s) (curY s) (curX s) = FLAGGED"
    and "flagCount (flag s) = flagCount s + 1"
    and "flag (flag s) = s"
proof -
  have v: "is_valid s (curY s) (curX s)" using b by (intro geti_valid) (simp add: cell_defs)
  let ?s1 = "(seti s (curY s) (curX s) FLAGGED)\<lparr>flagCount := flagCount s + 1\<rparr>"
  have f1: "flag s = ?s1" using b by (simp add: flag_def)
  have cur: "curY ?s1 = curY s" "curX ?s1 = curX s" by (simp_all add: seti_def)
  have g1: "geti ?s1 (curY s) (curX s) = FLAGGED" using v len by (simp add: geti_seti)
  show "geti (flag s) (curY s) (curX s) = FLAGGED" using g1 f1 by simp
  show "flagCount (flag s) = flagCount s + 1" using f1 by (simp add: seti_def)
  have "flag ?s1 = (seti ?s1 (curY s) (curX s) BLANK)\<lparr>flagCount := flagCount ?s1 - 1\<rparr>"
    unfolding flag_def[of ?s1] cur using g1 by (simp add: cell_defs)
  also have "\<dots> = s" using seti_seti_restore[OF v b] by simp
  finally show "flag (flag s) = s" using f1 by simp
qed

lemma flag_flagged:
  assumes len: "length (input_board s) = nat (sint (width s) * sint (height s))"
    and b: "geti s (curY s) (curX s) = FLAGGED"
  shows "geti (flag s) (curY s) (curX s) = BLANK"
    and "flagCount (flag s) = flagCount s - 1"
    and "flag (flag s) = s"
proof -
  have v: "is_valid s (curY s) (curX s)" using b by (intro geti_valid) (simp add: cell_defs)
  let ?s1 = "(seti s (curY s) (curX s) BLANK)\<lparr>flagCount := flagCount s - 1\<rparr>"
  have f1: "flag s = ?s1" using b by (simp add: flag_def cell_defs)
  have cur: "curY ?s1 = curY s" "curX ?s1 = curX s" by (simp_all add: seti_def)
  have g1: "geti ?s1 (curY s) (curX s) = BLANK" using v len by (simp add: geti_seti)
  show "geti (flag s) (curY s) (curX s) = BLANK" using g1 f1 by simp
  show "flagCount (flag s) = flagCount s - 1" using f1 by (simp add: seti_def)
  have "flag ?s1 = (seti ?s1 (curY s) (curX s) FLAGGED)\<lparr>flagCount := flagCount ?s1 + 1\<rparr>"
    unfolding flag_def[of ?s1] cur using g1 by simp
  also have "\<dots> = s" using seti_seti_restore[OF v b] by simp
  finally show "flag (flag s) = s" using f1 by simp
qed

lemma flag_revealed: "geti s (curY s) (curX s) = REVEAL \<Longrightarrow> flag s = s"
  by (simp add: flag_def cell_defs)

lemma flag_cases:
  assumes "length (input_board s) = nat (sint (width s) * sint (height s))"
  shows "(geti s (curY s) (curX s) = BLANK \<longrightarrow>
            geti (flag s) (curY s) (curX s) = FLAGGED \<and> flagCount (flag s) = flagCount s + 1 \<and>
            (sint (flagCount s) < 127 \<longrightarrow> sint (flagCount (flag s)) = sint (flagCount s) + 1) \<and>
            flag (flag s) = s) \<and>
         (geti s (curY s) (curX s) = FLAGGED \<longrightarrow>
            geti (flag s) (curY s) (curX s) = BLANK \<and> flagCount (flag s) = flagCount s - 1 \<and>
            (- 128 < sint (flagCount s) \<longrightarrow> sint (flagCount (flag s)) = sint (flagCount s) - 1) \<and>
            flag (flag s) = s) \<and>
         (geti s (curY s) (curX s) = REVEAL \<longrightarrow> flag s = s)"
  using flag_blank[OF assms] flag_flagged[OF assms] flag_revealed[of s]
  by (simp add: sint_inc sint_dec)

lemma flag_count_overflow:
  assumes "geti s (curY s) (curX s) = BLANK" "sint (flagCount s) = 127"
  shows "sint (flagCount (flag s)) = - 128"
proof -
  have "flagCount s = 127" using assms(2) by (intro sint_eq_TCell) simp
  then show ?thesis using assms(1) by (simp add: flag_def)
qed

lemma sint_of_int_wrap_hi: "128 \<le> i \<Longrightarrow> i \<le> 383 \<Longrightarrow> sint (word_of_int i :: TCell) = i - 256"
proof -
  assume a: "128 \<le> i" "i \<le> 383"
  have e: "i + 128 = i - 128 + 256" by simp
  have "(i - 128 + 256) mod 256 = (i - 128) mod 256" by (rule mod_add_self2)
  also have "\<dots> = i - 128" using a by (simp add: mod_pos_pos_trivial)
  finally have "(i + 128) mod 256 = i - 128" unfolding e .
  then show ?thesis by (simp add: int_word_sint)
qed

lemma coord_add:
  fixes c d lim :: TCell
  assumes c: "0 \<le> sint c" "sint c < sint lim"
  shows "(0 \<le> sint (word_of_int (sint d + sint c) :: TCell) \<and>
          sint (word_of_int (sint d + sint c) :: TCell) < sint lim) \<longleftrightarrow>
         (0 \<le> sint c + sint d \<and> sint c + sint d < sint lim)"
    and "0 \<le> sint c + sint d \<and> sint c + sint d < sint lim \<Longrightarrow>
         sint (word_of_int (sint d + sint c) :: TCell) = sint c + sint d"
proof -
  have lim: "sint lim \<le> 127" by (rule sint_TCell_le)
  have d: "- 128 \<le> sint d" "sint d \<le> 127" by (rule sint_TCell_ge, rule sint_TCell_le)
  have both: "((0 \<le> sint (word_of_int (sint d + sint c) :: TCell) \<and>
          sint (word_of_int (sint d + sint c) :: TCell) < sint lim) \<longleftrightarrow>
         (0 \<le> sint c + sint d \<and> sint c + sint d < sint lim)) \<and>
      (0 \<le> sint c + sint d \<and> sint c + sint d < sint lim \<longrightarrow>
         sint (word_of_int (sint d + sint c) :: TCell) = sint c + sint d)"
  proof (cases "sint d + sint c \<le> 127")
    case True
    have "sint (word_of_int (sint d + sint c) :: TCell) = sint d + sint c"
      using True c d by (intro sint_of_int_TCell) linarith+
    then show ?thesis by (simp add: add.commute)
  next
    case False
    have "sint (word_of_int (sint d + sint c) :: TCell) = sint d + sint c - 256"
      using False c d lim by (intro sint_of_int_wrap_hi) linarith+
    then show ?thesis using False c d lim by linarith
  qed
  show "(0 \<le> sint (word_of_int (sint d + sint c) :: TCell) \<and>
          sint (word_of_int (sint d + sint c) :: TCell) < sint lim) \<longleftrightarrow>
         (0 \<le> sint c + sint d \<and> sint c + sint d < sint lim)"
    using both by blast
  show "0 \<le> sint c + sint d \<and> sint c + sint d < sint lim \<Longrightarrow>
         sint (word_of_int (sint d + sint c) :: TCell) = sint c + sint d"
    using both by blast
qed

lemma move_cur_exact:
  assumes v: "is_valid s (curY s) (curX s)"
  shows "move_cur dy dx s =
     (if 0 \<le> sint (curY s) + sint dy \<and> sint (curY s) + sint dy < sint (height s) \<and>
         0 \<le> sint (curX s) + sint dx \<and> sint (curX s) + sint dx < sint (width s)
      then s\<lparr>curY := word_of_int (sint dy + sint (curY s)),
                curX := word_of_int (sint dx + sint (curX s))\<rparr> else s)"
proof -
  have cy: "0 \<le> sint (curY s)" "sint (curY s) < sint (height s)"
    and cx: "0 \<le> sint (curX s)" "sint (curX s) < sint (width s)"
    using v by (simp_all add: is_valid_def)
  have iff: "is_valid s (word_of_int (sint dy + sint (curY s))) (word_of_int (sint dx + sint (curX s)))
     \<longleftrightarrow> (0 \<le> sint (curY s) + sint dy \<and> sint (curY s) + sint dy < sint (height s) \<and>
         0 \<le> sint (curX s) + sint dx \<and> sint (curX s) + sint dx < sint (width s))"
    unfolding is_valid_def
    using coord_add(1)[OF cy, of dy] coord_add(1)[OF cx, of dx] by blast
  show ?thesis unfolding move_cur_def Let_def iff ..
qed

lemma move_cur_valid:
  assumes v: "is_valid s (curY s) (curX s)"
  shows "is_valid (move_cur dy dx s) (curY (move_cur dy dx s)) (curX (move_cur dy dx s))"
  using v unfolding move_cur_def Let_def by (simp add: is_valid_def)

lemma move_cur_coords:
  assumes v: "is_valid s (curY s) (curX s)"
    and ok: "0 \<le> sint (curY s) + sint dy \<and> sint (curY s) + sint dy < sint (height s)"
       "0 \<le> sint (curX s) + sint dx \<and> sint (curX s) + sint dx < sint (width s)"
  shows "sint (curY (move_cur dy dx s)) = sint (curY s) + sint dy"
    and "sint (curX (move_cur dy dx s)) = sint (curX s) + sint dx"
proof -
  have cy: "0 \<le> sint (curY s)" "sint (curY s) < sint (height s)"
    and cx: "0 \<le> sint (curX s)" "sint (curX s) < sint (width s)"
    using v by (simp_all add: is_valid_def)
  have m: "move_cur dy dx s = s\<lparr>curY := word_of_int (sint dy + sint (curY s)),
                curX := word_of_int (sint dx + sint (curX s))\<rparr>"
    unfolding move_cur_exact[OF v] using ok by simp
  show "sint (curY (move_cur dy dx s)) = sint (curY s) + sint dy"
    unfolding m using coord_add(2)[OF cy ok(1)] by simp
  show "sint (curX (move_cur dy dx s)) = sint (curX s) + sint dx"
    unfolding m using coord_add(2)[OF cx ok(2)] by simp
qed

lemma moves_valid:
  "is_valid s (curY s) (curX s) \<Longrightarrow> is_valid (moves ds s) (curY (moves ds s)) (curX (moves ds s))"
proof (induction ds arbitrary: s)
  case Nil
  then show ?case by simp
next
  case (Cons d ds)
  obtain dy dx where d: "d = (dy, dx)" by (cases d)
  show ?case unfolding d using Cons.IH[OF move_cur_valid[OF Cons.prems, of dy dx]] by simp
qed

lemma is_valid_set_cell [simp]: "is_valid (set_cell s y x v) y' x' = is_valid s y' x'"
  by (simp add: set_cell_def is_valid_def)

lemma cell_index_set_cell [simp]: "cell_index (set_cell s y x v) y' x' = cell_index s y' x'"
  by (simp add: set_cell_def cell_index_def)

lemma get_seti [simp]: "get (seti s y x v) y' x' = get s y' x'"
  by (simp add: seti_def)

lemma geti_set_cell [simp]: "geti (set_cell s y x v) y' x' = geti s y' x'"
  by (simp add: set_cell_def)

lemma get_valid: "get s y x \<noteq> ERROR \<Longrightarrow> is_valid s y x"
  by (auto simp: get_def split: if_splits)

lemma get_set_cell:
  assumes len: "length (board s) = nat (sint (width s) * sint (height s))"
  shows "get (set_cell s y x v) y' x' = (if is_valid s y x \<and> y' = y \<and> x' = x then v else get s y' x')"
proof (cases "is_valid s y x")
  case False
  then show ?thesis by (simp add: get_def set_cell_def)
next
  case True
  show ?thesis
  proof (cases "is_valid s y' x'")
    case False
    then show ?thesis using True by (auto simp: get_def)
  next
    case v': True
    have lt: "cell_index s y x < length (board s)"
      using cell_index_less[OF True] len by simp
    show ?thesis
    proof (cases "y' = y \<and> x' = x")
      case True
      then show ?thesis using \<open>is_valid s y x\<close> lt by (simp add: get_def set_cell_def)
    next
      case False
      then have "cell_index s y x \<noteq> cell_index s y' x'"
        using cell_index_inj[OF \<open>is_valid s y x\<close> v'] by auto
      then show ?thesis using False v' \<open>is_valid s y x\<close>
        by (auto simp: get_def set_cell_def)
    qed
  qed
qed

lemma set_cell_fields [simp]:
  "height (set_cell s y x v) = height s" "width (set_cell s y x v) = width s"
  "mines (set_cell s y x v) = mines s" "input_board (set_cell s y x v) = input_board s"
  "curY (set_cell s y x v) = curY s" "curX (set_cell s y x v) = curX s"
  "done_flag (set_cell s y x v) = done_flag s" "win (set_cell s y x v) = win s"
  "lose (set_cell s y x v) = lose s" "revealCount (set_cell s y x v) = revealCount s"
  "flagCount (set_cell s y x v) = flagCount s"
  "length (board (set_cell s y x v)) = length (board s)"
  by (simp_all add: set_cell_def)

lemma seti_fields [simp]:
  "height (seti s y x v) = height s" "width (seti s y x v) = width s"
  "mines (seti s y x v) = mines s" "board (seti s y x v) = board s"
  "curY (seti s y x v) = curY s" "curX (seti s y x v) = curX s"
  "done_flag (seti s y x v) = done_flag s" "win (seti s y x v) = win s"
  "lose (seti s y x v) = lose s" "revealCount (seti s y x v) = revealCount s"
  "flagCount (seti s y x v) = flagCount s"
  "length (input_board (seti s y x v)) = length (input_board s)"
  by (simp_all add: seti_def)

lemma max_reveal_update [simp]:
  "max_reveal (curY_update f1 s) = max_reveal s"
  "max_reveal (curX_update f2 s) = max_reveal s"
  "max_reveal (done_flag_update f3 s) = max_reveal s"
  "max_reveal (win_update f4 s) = max_reveal s"
  "max_reveal (lose_update f5 s) = max_reveal s"
  "max_reveal (revealCount_update f6 s) = max_reveal s"
  "max_reveal (flagCount_update f7 s) = max_reveal s"
  "max_reveal (board_update f8 s) = max_reveal s"
  "max_reveal (input_board_update f9 s) = max_reveal s"
  "max_reveal (seti s y x v) = max_reveal s"
  "max_reveal (set_cell s y x v) = max_reveal s"
  by (simp_all add: max_reveal_def)

section \<open>Mine placement with more mines than cells\<close>

lemma count_list_update_new:
  "i < length xs \<Longrightarrow> xs ! i \<noteq> v \<Longrightarrow> count_list (xs[i := v]) v = Suc (count_list xs v)"
proof (induction xs arbitrary: i)
  case Nil
  then show ?case by simp
next
  case (Cons a xs)
  then show ?case by (cases i) auto
qed

lemma count_list_le_length: "count_list xs v \<le> length xs"
  by (induction xs) auto

lemma add_mines_diverges:
  assumes "length (board s) = nat (sint (width s) * sint (height s))"
    and "sint minesAdded = int (count_list (board s) MINE)"
    and "int (length (board s)) < sint (mines s)"
  shows "add_mines n rng p minesAdded s = None"
  using assms
proof (induction n arbitrary: p minesAdded s)
  case 0
  then show ?case by simp
next
  case (Suc n)
  have le: "int (count_list (board s) MINE) \<le> int (length (board s))"
    using count_list_le_length[of "board s" MINE] by simp
  then have lt: "sint minesAdded < sint (mines s)" using Suc.prems by linarith
  obtain y p1 where r1: "random rng p 0 (sint (height s)) = (y, p1)" by (cases "random rng p 0 (sint (height s))")
  obtain x p2 where r2: "random rng p1 0 (sint (width s)) = (x, p2)" by (cases "random rng p1 0 (sint (width s))")
  show ?case
  proof (cases "get s y x = 0")
    case False
    then show ?thesis using lt r1 r2 Suc.IH[OF Suc.prems] by simp
  next
    case True
    then have v: "is_valid s y x" by (intro get_valid) (simp add: cell_defs)
    have idx: "cell_index s y x < length (board s)"
      using cell_index_less[OF v] Suc.prems(1) by simp
    have cell: "board s ! cell_index s y x \<noteq> MINE"
      using True v by (simp add: get_def cell_defs)
    let ?s' = "set_cell s y x MINE"
    have b': "board ?s' = (board s)[cell_index s y x := MINE]"
      using v by (simp add: set_cell_def)
    have cnt: "count_list (board ?s') MINE = Suc (count_list (board s) MINE)"
      unfolding b' by (rule count_list_update_new[OF idx cell])
    have m127: "sint (mines s) \<le> 127" by (rule sint_TCell_le)
    have "sint (minesAdded + 1) = sint minesAdded + 1"
      using lt m127 by (intro sint_inc) linarith
    then have 2: "sint (minesAdded + 1) = int (count_list (board ?s') MINE)"
      using cnt Suc.prems(2) by simp
    have 1: "length (board ?s') = nat (sint (width ?s') * sint (height ?s'))"
      using Suc.prems(1) by simp
    have 3: "int (length (board ?s')) < sint (mines ?s')" using Suc.prems(3) by simp
    show ?thesis using lt r1 r2 True Suc.IH[OF 1 2 3] by simp
  qed
qed

lemma init_diverges_aux:
  assumes "1 \<le> sint (height s)" "1 \<le> sint (width s)"
    and "sint (height s) * sint (width s) < sint (mines s)"
  shows "init n rng (p, s) = None"
proof -
  let ?cells = "nat (sint (width s) * sint (height s))"
  let ?s = "s\<lparr>done_flag := False, win := False, lose := False,
                revealCount := 0, flagCount := 0,
                board := replicate ?cells 0, input_board := replicate ?cells 0\<rparr>"
  have pos: "0 \<le> sint (width s) * sint (height s)" using assms(1,2) by simp
  have 1: "length (board ?s) = nat (sint (width ?s) * sint (height ?s))" by simp
  have "count_list (replicate ?cells (0::TCell)) MINE = 0"
    by (induction ?cells) (simp_all add: cell_defs)
  then have 2: "sint (0::TCell) = int (count_list (board ?s) MINE)" by simp
  have 3: "int (length (board ?s)) < sint (mines ?s)"
    using assms(3) pos by (simp add: mult.commute)
  show ?thesis
    unfolding init_def using add_mines_diverges[OF 1 2 3, of n rng p] pos by (simp add: Let_def)
qed

lemma r_reveal_expert_aux:
  assumes d: "height s = 16" "width s = 30" "mines s = 99"
    and nd: "\<not> is_done s" and rc: "revealCount s = 124"
    and c: "geti s y x \<noteq> FLAGGED" "geti s y x \<noteq> REVEAL" "get s y x \<noteq> MINE"
  shows "r_reveal (Suc n) y x s =
      Some ((seti s y x REVEAL)\<lparr>revealCount := 125, win := True, lose := False, done_flag := True\<rparr>)"
proof -
  have m: "max_reveal s = 125" by (simp add: max_reveal_def d)
  show ?thesis using nd rc c by (simp add: m Let_def)
qed

section \<open>Initialisation: mines and neighbour counts\<close>

lemma mine_at_get: "mine_at s (sint h) (sint w) \<longleftrightarrow> is_valid s h w \<and> get s h w = MINE"
  by (auto simp: mine_at_def is_valid_def get_def cell_index_def)

lemma adjacent_mines_le: "adjacent_mines s i j \<le> 8"
proof -
  have "length (filter (\<lambda>(di, dj). mine_at s (i + di) (j + dj)) moore) \<le> length moore"
    by (rule length_filter_le)
  then show ?thesis by (simp add: adjacent_mines_def moore_def)
qed

lemma if_inc_of_bool: "(if b then (c::TCell) + 1 else c) = c + of_bool b"
  by simp

lemma adjacent_mines_sum:
  "adjacent_mines s i j =
     of_bool (mine_at s (i - 1) (j - 1)) + of_bool (mine_at s (i - 1) j) + of_bool (mine_at s (i - 1) (j + 1)) +
     of_bool (mine_at s i (j - 1)) + of_bool (mine_at s i (j + 1)) +
     of_bool (mine_at s (i + 1) (j - 1)) + of_bool (mine_at s (i + 1) j) + of_bool (mine_at s (i + 1) (j + 1))"
  by (simp add: adjacent_mines_def moore_def)

lemma count_neighbors_Some:
  assumes r: "count_neighbors n s y x = Some c" and y0: "- 127 \<le> sint y" and x0: "- 127 \<le> sint x"
  shows "sint y < 126 \<and> sint x < 126 \<and> c = of_nat (adjacent_mines s (sint y) (sint x))"
proof -
  let ?inner = "\<lambda>h w (count::TCell).
               Some (if is_valid s h w \<and> \<not> (h = y \<and> w = x)
                     then (if get s h w = MINE then count + 1 else count)
                     else count)"
  let ?row = "\<lambda>h count. for_le n (x - 1) (sint x + 1) (?inner h) count"
  have r': "for_le n (y - 1) (sint y + 1) ?row 0 = Some c"
    using r unfolding count_neighbors_def by simp
  from for_le3_Some[OF r' y0] obtain c1 c2 where
    ylt: "sint y < 126" and
    rows: "?row (y - 1) 0 = Some c1" "?row y c1 = Some c2" "?row (y + 1) c2 = Some c"
    by blast
  from for_le3_Some[OF rows(1) x0] have xlt: "sint x < 126" by blast
  have sy: "sint (y - 1) = sint y - 1" "sint (y + 1) = sint y + 1"
    using y0 ylt by (simp_all add: sint_dec sint_inc)
  have sx: "sint (x - 1) = sint x - 1" "sint (x + 1) = sint x + 1"
    using x0 xlt by (simp_all add: sint_dec sint_inc)
  have ny: "y - 1 \<noteq> y" "y + 1 \<noteq> y" by simp_all
  have nx: "x - 1 \<noteq> x" "x + 1 \<noteq> x" by simp_all
  have cell: "(is_valid s h w \<and> get s h w = MINE) = mine_at s (sint h) (sint w)" for h w
    by (simp add: mine_at_get)
  have row: "?row h c0 = Some c' \<Longrightarrow>
     c' = c0 + of_bool (\<not> (h = y \<and> x - 1 = x) \<and> mine_at s (sint h) (sint (x - 1)))
             + of_bool (\<not> (h = y) \<and> mine_at s (sint h) (sint x))
             + of_bool (\<not> (h = y \<and> x + 1 = x) \<and> mine_at s (sint h) (sint (x + 1)))" for h c0 c'
  proof -
    assume a: "?row h c0 = Some c'"
    from for_le3_Some[OF a x0] obtain d1 d2 where
      d: "?inner h (x - 1) c0 = Some d1" "?inner h x d1 = Some d2" "?inner h (x + 1) d2 = Some c'"
      by blast
    have 1: "d1 = c0 + of_bool (\<not> (h = y \<and> x - 1 = x) \<and> mine_at s (sint h) (sint (x - 1)))"
      using d(1) cell[of h "x - 1"] by (auto split: if_splits)
    have 2: "d2 = d1 + of_bool (\<not> (h = y) \<and> mine_at s (sint h) (sint x))"
      using d(2) cell[of h x] by (auto split: if_splits)
    have 3: "c' = d2 + of_bool (\<not> (h = y \<and> x + 1 = x) \<and> mine_at s (sint h) (sint (x + 1)))"
      using d(3) cell[of h "x + 1"] by (auto split: if_splits)
    show ?thesis unfolding 3 2 1 ..
  qed
  have "c = of_nat (adjacent_mines s (sint y) (sint x))"
    unfolding row[OF rows(3)] row[OF rows(2)] row[OF rows(1)] adjacent_mines_sum
    using ny nx by (simp add: sy sx)
  with ylt xlt show ?thesis by simp
qed

lemma for_lt_rule:
  assumes "for_lt n i hi body a = Some a'"
    and "hi \<le> 127"
    and "I (sint i) a"
    and step: "\<And>j b b'. I (sint j) b \<Longrightarrow> sint i \<le> sint j \<Longrightarrow> sint j < hi \<Longrightarrow> body j b = Some b' \<Longrightarrow> I (sint j + 1) b'"
  shows "I (max (sint i) hi) a'"
  using assms(1,3,4)
proof (induction n arbitrary: i a)
  case 0
  then show ?case by simp
next
  case (Suc n)
  show ?case
  proof (cases "sint i < hi")
    case False
    then have "a' = a" using Suc.prems(1) by simp
    moreover have "max (sint i) hi = sint i" using False by simp
    ultimately show ?thesis using Suc.prems(2) by simp
  next
    case True
    then obtain b where b: "body i a = Some b" and rest: "for_lt n (i + 1) hi body b = Some a'"
      using Suc.prems(1) by (auto split: option.splits)
    have si: "sint (i + 1) = sint i + 1" using True assms(2) by (intro sint_inc) linarith
    have Ib: "I (sint (i + 1)) b" unfolding si using Suc.prems(3)[OF Suc.prems(2) _ True b] by simp
    have "I (max (sint (i + 1)) hi) a'"
    proof (rule Suc.IH[OF rest Ib])
      fix j c c'
      assume "I (sint j) c" "sint (i + 1) \<le> sint j" "sint j < hi" "body j c = Some c'"
      then show "I (sint j + 1) c'" using Suc.prems(3)[of j c c'] si by simp
    qed
    moreover have "max (sint (i + 1)) hi = max (sint i) hi" using True si by simp
    ultimately show ?thesis by simp
  qed
qed

lemma count_list_update_other:
  "xs ! i \<noteq> v \<Longrightarrow> u \<noteq> v \<Longrightarrow> count_list (xs[i := u]) v = count_list xs v"
proof (induction xs arbitrary: i)
  case Nil
  then show ?case by simp
next
  case (Cons a xs)
  then show ?case by (cases i) auto
qed

lemma count_list_replicate_other: "u \<noteq> v \<Longrightarrow> count_list (replicate k u) v = 0"
  by (induction k) simp_all

lemma add_mines_Some:
  assumes "add_mines n rng p minesAdded s = Some (p', s')" and "placing s minesAdded"
  shows "height s' = height s \<and> width s' = width s \<and> mines s' = mines s \<and>
         input_board s' = input_board s \<and> curY s' = curY s \<and> curX s' = curX s \<and>
         done_flag s' = done_flag s \<and> win s' = win s \<and> lose s' = lose s \<and>
         revealCount s' = revealCount s \<and> flagCount s' = flagCount s \<and>
         length (board s') = nat (sint (width s) * sint (height s)) \<and>
         int (count_list (board s') MINE) = max 0 (sint (mines s)) \<and>
         (\<forall>i < length (board s'). board s' ! i = 0 \<or> board s' ! i = MINE)"
  using assms
proof (induction n arbitrary: p minesAdded s)
  case 0
  then show ?case by simp
next
  case (Suc n)
  note pl = Suc.prems(2)[unfolded placing_def]
  show ?case
  proof (cases "sint minesAdded < sint (mines s)")
    case False
    then have "s' = s" using Suc.prems(1) by simp
    then show ?thesis using pl False by auto
  next
    case lt: True
    obtain y p1 where r1: "random rng p 0 (sint (height s)) = (y, p1)" by (cases "random rng p 0 (sint (height s))")
    obtain x p2 where r2: "random rng p1 0 (sint (width s)) = (x, p2)" by (cases "random rng p1 0 (sint (width s))")
    show ?thesis
    proof (cases "get s y x = 0")
      case False
      then have "add_mines n rng p2 minesAdded s = Some (p', s')"
        using Suc.prems(1) lt r1 r2 by simp
      from Suc.IH[OF this Suc.prems(2)] show ?thesis .
    next
      case True
      then have v: "is_valid s y x" by (intro get_valid) (simp add: cell_defs)
      have idx: "cell_index s y x < length (board s)"
        using cell_index_less[OF v] pl by simp
      have cell: "board s ! cell_index s y x \<noteq> MINE"
        using True v by (simp add: get_def cell_defs)
      let ?s' = "set_cell s y x MINE"
      have b': "board ?s' = (board s)[cell_index s y x := MINE]"
        using v by (simp add: set_cell_def)
      have cnt: "count_list (board ?s') MINE = Suc (count_list (board s) MINE)"
        unfolding b' by (rule count_list_update_new[OF idx cell])
      have m127: "sint (mines s) \<le> 127" by (rule sint_TCell_le)
      have inc: "sint (minesAdded + 1) = sint minesAdded + 1"
        using lt m127 by (intro sint_inc) linarith
      have cells: "\<forall>i < length (board ?s'). board ?s' ! i = 0 \<or> board ?s' ! i = MINE"
      proof (intro allI impI)
        fix i assume "i < length (board ?s')"
        then have i: "i < length (board s)" by simp
        show "board ?s' ! i = 0 \<or> board ?s' ! i = MINE"
          unfolding b' using pl i by (cases "i = cell_index s y x") simp_all
      qed
      have pl': "placing ?s' (minesAdded + 1)"
        unfolding placing_def using pl cnt inc lt cells by simp
      have "add_mines n rng p2 (minesAdded + 1) ?s' = Some (p', s')"
        using Suc.prems(1) lt r1 r2 True by simp
      from Suc.IH[OF this pl'] show ?thesis by simp
    qed
  qed
qed

lemma counting_mono:
  assumes "counting s0 s D"
    and "\<And>y x. is_valid s0 y x \<Longrightarrow> D' (sint y) (sint x) \<Longrightarrow> D (sint y) (sint x)"
  shows "counting s0 s D'"
  using assms unfolding counting_def by blast

lemma counting_dims:
  assumes "counting s0 s D"
  shows "height s = height s0" "width s = width s0" "mines s = mines s0"
    "is_valid s y x = is_valid s0 y x" "cell_index s y x = cell_index s0 y x"
proof -
  have e: "s = s0\<lparr>board := board s\<rparr>" using assms by (simp add: counting_def)
  show "height s = height s0" by (subst e) simp
  show "width s = width s0" by (subst e) simp
  show "mines s = mines s0" by (subst e) simp
  show "is_valid s y x = is_valid s0 y x" by (subst e) simp
  show "cell_index s y x = cell_index s0 y x" by (subst e) simp
qed

lemma digit_not_mine: "k \<le> 8 \<Longrightarrow> (48 + of_nat k :: TCell) \<noteq> MINE"
proof -
  assume "k \<le> 8"
  then have "k = 0 \<or> k = 1 \<or> k = 2 \<or> k = 3 \<or> k = 4 \<or> k = 5 \<or> k = 6 \<or> k = 7 \<or> k = 8"
    by arith
  then show ?thesis by (auto simp: cell_defs)
qed

lemma adjacent_mines_cong:
  "(\<forall>i j. mine_at s i j = mine_at s0 i j) \<Longrightarrow> adjacent_mines s i j = adjacent_mines s0 i j"
  by (simp add: adjacent_mines_def)

lemma mine_at_set_cell:
  assumes len: "length (board s) = nat (sint (width s) * sint (height s))"
    and v: "v \<noteq> MINE" and old: "get s h w \<noteq> MINE"
  shows "mine_at (set_cell s h w v) i j = mine_at s i j"
proof (cases "0 \<le> i \<and> i < sint (height s) \<and> 0 \<le> j \<and> j < sint (width s)")
  case False
  then show ?thesis by (auto simp: mine_at_def)
next
  case True
  define y :: TCell where "y = word_of_int i"
  define x :: TCell where "x = word_of_int j"
  have hb: "sint (height s) \<le> 127" "sint (width s) \<le> 127" by (rule sint_TCell_le)+
  have sy: "sint y = i" unfolding y_def using True hb by (intro sint_of_int_TCell) linarith+
  have sx: "sint x = j" unfolding x_def using True hb by (intro sint_of_int_TCell) linarith+
  have "mine_at (set_cell s h w v) (sint y) (sint x) = mine_at s (sint y) (sint x)"
    unfolding mine_at_get using v old by (auto simp: get_set_cell[OF len])
  then show ?thesis unfolding sy sx .
qed

lemma count_cell_step:
  assumes c: "counting s0 s D" and len0: "length (board s0) = nat (sint (width s0) * sint (height s0))"
    and v: "is_valid s0 h w"
    and body: "(if get s h w \<noteq> MINE
               then (case count_neighbors n s h w of
                       None \<Rightarrow> None
                     | Some c \<Rightarrow> Some (set_cell s h w (word_of_int (sint c + 48))))
               else Some s) = Some s'"
  shows "counting s0 s' (\<lambda>i j. D i j \<or> (i = sint h \<and> j = sint w))"
proof (cases "get s h w = MINE")
  case True
  then have "s' = s" using body by simp
  then show ?thesis using c True unfolding counting_def
    by (auto dest: sint_eq_TCell)
next
  case False
  then obtain k where k: "count_neighbors n s h w = Some k"
    and s': "s' = set_cell s h w (word_of_int (sint k + 48))"
    using body by (auto split: option.splits)
  note d = counting_dims[OF c]
  have vs: "is_valid s h w" using v d(4) by simp
  have h0: "- 127 \<le> sint h" "- 127 \<le> sint w" using v by (simp_all add: is_valid_def)
  have same: "\<forall>i j. mine_at s i j = mine_at s0 i j" using c by (simp add: counting_def)
  have kk: "k = of_nat (adjacent_mines s0 (sint h) (sint w))"
    using count_neighbors_Some[OF k h0] adjacent_mines_cong[OF same] by simp
  have inner: "sint h < 126" "sint w < 126"
    using count_neighbors_Some[OF k h0] by simp_all
  define val :: TCell where "val = 48 + of_nat (adjacent_mines s0 (sint h) (sint w))"
  have val: "word_of_int (sint k + 48) = val" unfolding val_def kk by simp
  have vm: "val \<noteq> MINE" unfolding val_def by (rule digit_not_mine[OF adjacent_mines_le])
  have len: "length (board s) = nat (sint (width s) * sint (height s))"
    using c len0 d by (simp add: counting_def)
  have s'': "s' = set_cell s h w val" using s' val by simp
  have e: "s = s0\<lparr>board := board s\<rparr>" using c by (simp add: counting_def)
  have 1: "s' = s0\<lparr>board := board s'\<rparr>"
    unfolding s'' set_cell_def using vs by (simp, subst e, simp)
  have 2: "length (board s') = length (board s0)" using c unfolding s'' by (simp add: counting_def)
  have old: "board s ! cell_index s h w \<noteq> MINE" using False vs by (simp add: get_def)
  have 3: "count_list (board s') MINE = count_list (board s0) MINE"
    using c count_list_update_other[OF old vm] vs unfolding s'' set_cell_def
    by (simp add: counting_def)
  have 4: "\<forall>i j. mine_at s' i j = mine_at s0 i j"
    unfolding s'' using mine_at_set_cell[OF len vm False] same by simp
  have 5: "get s' y x = 48 + of_nat (adjacent_mines s0 (sint y) (sint x)) \<and>
      sint y < 126 \<and> sint x < 126"
    if "is_valid s0 y x" "D (sint y) (sint x) \<or> (sint y = sint h \<and> sint x = sint w)" "get s' y x \<noteq> MINE" for y x
  proof (cases "y = h \<and> x = w")
    case True
    then show ?thesis unfolding s'' using vs inner by (simp add: get_set_cell[OF len] val_def)
  next
    case ne: False
    then have g: "get s' y x = get s y x" unfolding s'' by (auto simp: get_set_cell[OF len])
    have "D (sint y) (sint x)" using that(2) ne by (auto dest: sint_eq_TCell)
    then show ?thesis using c that(1,3) unfolding g counting_def by blast
  qed
  show ?thesis unfolding counting_def using 1 2 3 4 5 by blast
qed

lemma counting_start: "counting s0 s0 (\<lambda>i j. i < 0)"
  unfolding counting_def by (auto simp: is_valid_def)

lemma count_row_Some:
  assumes c: "counting s0 b (\<lambda>i j. i < sint h)"
    and len0: "length (board s0) = nat (sint (width s0) * sint (height s0))"
    and h: "0 \<le> sint h" "sint h < sint (height s0)"
    and row: "for_lt n 0 (sint (width b))
            (\<lambda>w s.
               if get s h w \<noteq> MINE
               then (case count_neighbors n s h w of
                       None \<Rightarrow> None
                     | Some c \<Rightarrow> Some (set_cell s h w (word_of_int (sint c + 48))))
               else Some s)
            b = Some b'"
  shows "counting s0 b' (\<lambda>i j. i < sint h + 1)"
proof -
  let ?I = "\<lambda>k s. counting s0 s (\<lambda>i j. i < sint h \<or> (i = sint h \<and> j < k))"
  have wb: "sint (width b) \<le> 127" by (rule sint_TCell_le)
  have wd: "width b = width s0" by (rule counting_dims(2)[OF c])
  have init: "?I (sint (0::TCell)) b"
    by (rule counting_mono[OF c]) (auto simp: is_valid_def)
  have "?I (max (sint (0::TCell)) (sint (width b))) b'"
  proof (rule for_lt_rule[OF row wb, where I = ?I, OF init])
    fix j :: TCell and c c'
    assume I: "?I (sint j) c" and j0: "sint (0::TCell) \<le> sint j" and j1: "sint j < sint (width b)"
      and body: "(if get c h j \<noteq> MINE
               then (case count_neighbors n c h j of
                       None \<Rightarrow> None
                     | Some k \<Rightarrow> Some (set_cell c h j (word_of_int (sint k + 48))))
               else Some c) = Some c'"
    have v: "is_valid s0 h j" using h j0 j1 wd by (simp add: is_valid_def)
    show "?I (sint j + 1) c'"
      by (rule counting_mono[OF count_cell_step[OF I len0 v body]]) auto
  qed
  then show ?thesis
    by (rule counting_mono) (auto simp: is_valid_def wd)
qed

lemma count_all_Some:
  assumes r: "count_all n s0 = Some s'"
    and len0: "length (board s0) = nat (sint (width s0) * sint (height s0))"
  shows "counting s0 s' (\<lambda>i j. True)"
proof -
  let ?I = "\<lambda>k s. counting s0 s (\<lambda>i j. i < k)"
  have hb: "sint (height s0) \<le> 127" by (rule sint_TCell_le)
  have init: "?I (sint (0::TCell)) s0" using counting_start[of s0] by simp
  have "?I (max (sint (0::TCell)) (sint (height s0))) s'"
  proof (rule for_lt_rule[OF r[unfolded count_all_def] hb, where I = ?I, OF init])
    fix j :: TCell and b b'
    assume I: "?I (sint j) b" and j0: "sint (0::TCell) \<le> sint j" and j1: "sint j < sint (height s0)"
      and row: "for_lt n 0 (sint (width b))
            (\<lambda>w s.
               if get s j w \<noteq> MINE
               then (case count_neighbors n s j w of
                       None \<Rightarrow> None
                     | Some c \<Rightarrow> Some (set_cell s j w (word_of_int (sint c + 48))))
               else Some s)
            b = Some b'"
    from j0 have j0': "0 \<le> sint j" by simp
    show "?I (sint j + 1) b'"
      by (rule count_row_Some[OF I len0 j0' j1 row])
  qed
  then show ?thesis
    by (rule counting_mono) (auto simp: is_valid_def)
qed

lemma init_Some:
  assumes r: "init n rng (p, s) = Some (p', s')"
  shows "height s' = height s \<and> width s' = width s \<and> mines s' = mines s \<and>
         curY s' = curY s \<and> curX s' = curX s \<and>
         \<not> done_flag s' \<and> \<not> win s' \<and> \<not> lose s' \<and> revealCount s' = 0 \<and> flagCount s' = 0 \<and>
         input_board s' = replicate (nat (sint (width s) * sint (height s))) 0 \<and>
         length (board s') = nat (sint (width s) * sint (height s)) \<and>
         int (count_list (board s') MINE) = max 0 (sint (mines s)) \<and>
         counts_ok s' \<and> loops_exit s' \<and> wf_i s'"
proof -
  let ?cells = "nat (sint (width s) * sint (height s))"
  let ?s = "s\<lparr>done_flag := False, win := False, lose := False,
                revealCount := 0, flagCount := 0,
                board := replicate ?cells 0, input_board := replicate ?cells 0\<rparr>"
  from r obtain s1 where a: "add_mines n rng p 0 ?s = Some (p', s1)"
    and c: "count_all n s1 = Some s'"
    unfolding init_def by (auto simp: Let_def split: option.splits if_splits)
  have pl: "placing ?s 0"
    unfolding placing_def by (simp add: count_list_replicate_other cell_defs)
  note A = add_mines_Some[OF a pl]
  have len1: "length (board s1) = nat (sint (width s1) * sint (height s1))" using A by simp
  note C = count_all_Some[OF c len1]
  note d = counting_dims[OF C]
  have e: "s' = s1\<lparr>board := board s'\<rparr>" using C by (simp add: counting_def)
  have f: "curY s' = curY s1" "curX s' = curX s1" "done_flag s' = done_flag s1" "win s' = win s1"
    "lose s' = lose s1" "revealCount s' = revealCount s1" "flagCount s' = flagCount s1"
    "input_board s' = input_board s1"
    by (subst e, simp)+
  have same: "\<forall>i j. mine_at s' i j = mine_at s1 i j" using C by (simp add: counting_def)
  have ok: "counts_ok s'"
    unfolding counts_ok_def adjacent_mines_cong[OF same] d(4)
    using C unfolding counting_def by blast
  have len: "length (board s') = nat (sint (width s) * sint (height s))"
    using C A by (simp add: counting_def)
  have cnt: "int (count_list (board s') MINE) = max 0 (sint (mines s))"
    using C A by (simp add: counting_def)
  have le: "loops_exit s'"
    unfolding loops_exit_def d(4)
  proof (intro allI impI)
    fix y x assume "is_valid s1 y x" "get s' y x = 48"
    moreover from this have "get s' y x \<noteq> MINE" by (simp add: cell_defs)
    ultimately show "sint y < 126 \<and> sint x < 126"
      using C unfolding counting_def by blast
  qed
  have wf: "wf_i s'" unfolding wf_i_def using f A d(1,2) by simp
  show ?thesis using d(1-3) f A ok len cnt le wf by simp
qed


lemma new_3x3: "SBoard_new 20 (\<lambda>i. i) 0 3 3 2 = Some (4, fresh_3x3)"
  by code_simp

section \<open>The flood fill: what it leaves alone, and safety of the first reveal\<close>

lemma r_frame_refl [simp]: "r_frame s s"
  by (simp add: r_frame_def)

lemma r_frame_trans: "r_frame s s' \<Longrightarrow> r_frame s' s'' \<Longrightarrow> r_frame s s''"
  by (simp add: r_frame_def)

lemma r_frame_get: "r_frame s s' \<Longrightarrow> get s' y x = get s y x"
  by (simp add: r_frame_def get_def is_valid_def cell_index_def)

lemma r_frame_is_valid: "r_frame s s' \<Longrightarrow> is_valid s' y x = is_valid s y x"
  by (simp add: r_frame_def is_valid_def)

lemma r_frame_max_reveal: "r_frame s s' \<Longrightarrow> max_reveal s' = max_reveal s"
  by (simp add: r_frame_def max_reveal_def)

lemma counts_ok_cong:
  "board s' = board s \<Longrightarrow> height s' = height s \<Longrightarrow> width s' = width s \<Longrightarrow> counts_ok s' = counts_ok s"
  by (simp add: counts_ok_def is_valid_def get_def cell_index_def adjacent_mines_def mine_at_def)

lemma r_frame_counts_ok: "r_frame s s' \<Longrightarrow> counts_ok s' = counts_ok s"
  by (rule counts_ok_cong) (simp_all add: r_frame_def)

lemma for_le_rule:
  assumes "for_le n i hi body a = Some a'"
    and "I a"
    and step: "\<And>j b b'. I b \<Longrightarrow> sint i \<le> sint j \<Longrightarrow> sint j \<le> hi \<Longrightarrow> body j b = Some b' \<Longrightarrow> I b'"
  shows "I a'"
  using assms
proof (induction n arbitrary: i a)
  case 0
  then show ?case by simp
next
  case (Suc n)
  show ?case
  proof (cases "sint i \<le> hi")
    case False
    then have "a' = a" using Suc.prems(1) by simp
    then show ?thesis using Suc.prems(2) by simp
  next
    case True
    then obtain b where b: "body i a = Some b" and rest: "for_le n (i + 1) hi body b = Some a'"
      using Suc.prems(1) by (auto split: option.splits)
    have "hi < 127"
    proof (rule ccontr)
      assume "\<not> hi < 127"
      then have "127 \<le> hi" by simp
      from for_le_top[OF this, of "Suc n" i body a] Suc.prems(1) show False by simp
    qed
    then have si: "sint (i + 1) = sint i + 1" using True by (intro sint_inc) linarith
    have Ib: "I b" using Suc.prems(3)[OF Suc.prems(2) _ True b] by simp
    show ?thesis
    proof (rule Suc.IH[OF rest Ib])
      fix j c c'
      assume "I c" "sint (i + 1) \<le> sint j" "sint j \<le> hi" "body j c = Some c'"
      then show "I c'" using Suc.prems(3)[of c j c'] si by simp
    qed
  qed
qed

lemma of_nat_digit_zero: "k \<le> 8 \<Longrightarrow> (of_nat k :: TCell) = 0 \<Longrightarrow> k = 0"
proof -
  assume "k \<le> 8"
  then have "k = 0 \<or> k = 1 \<or> k = 2 \<or> k = 3 \<or> k = 4 \<or> k = 5 \<or> k = 6 \<or> k = 7 \<or> k = 8"
    by arith
  moreover assume "(of_nat k :: TCell) = 0"
  ultimately show ?thesis by auto
qed

lemma zero_no_mine_neighbors:
  assumes ok: "counts_ok s" and v: "is_valid s y x" and z: "get s y x = 48"
    and n: "sint y - 1 \<le> sint h" "sint h \<le> sint y + 1" "sint x - 1 \<le> sint w" "sint w \<le> sint x + 1"
    and ne: "\<not> (h = y \<and> w = x)"
  shows "\<not> mine_at s (sint h) (sint w)"
proof -
  have "get s y x \<noteq> MINE" using z by (simp add: cell_defs)
  then have "get s y x = 48 + of_nat (adjacent_mines s (sint y) (sint x))"
    using ok v unfolding counts_ok_def by blast
  then have "(of_nat (adjacent_mines s (sint y) (sint x)) :: TCell) = 0" using z by simp
  then have am: "adjacent_mines s (sint y) (sint x) = 0"
    by (rule of_nat_digit_zero[OF adjacent_mines_le])
  have nm: "\<not> mine_at s (sint y + di) (sint x + dj)" if "(di, dj) \<in> set moore" for di dj
    using am that unfolding adjacent_mines_def by (auto simp: filter_empty_conv)
  define a where "a = sint h - sint y"
  define b where "b = sint w - sint x"
  have a: "a = - 1 \<or> a = 0 \<or> a = 1" using n(1,2) unfolding a_def by linarith
  have b: "b = - 1 \<or> b = 0 \<or> b = 1" using n(3,4) unfolding b_def by linarith
  have "sint h \<noteq> sint y \<or> sint w \<noteq> sint x" using ne by (auto dest: sint_eq_TCell)
  then have "a \<noteq> 0 \<or> b \<noteq> 0" unfolding a_def b_def by simp
  then have "(a, b) \<in> set moore"
    using a b unfolding moore_def by auto
  from nm[OF this] show ?thesis unfolding a_def b_def by simp
qed

lemma r_reveal_Suc:
  "r_reveal (Suc n) y x s =
     (if is_done s then Some s
      else if geti s y x = FLAGGED then Some s
      else if get (mark s y x) y x = MINE
      then Some ((mark s y x)\<lparr>win := False, lose := True, done_flag := True\<rparr>)
      else if sint (revealCount (mark s y x)) \<ge> sint (max_reveal (mark s y x))
      then Some ((mark s y x)\<lparr>win := True, lose := False, done_flag := True\<rparr>)
      else if get (mark s y x) y x = 48 then spread n y x (mark s y x)
      else Some (mark s y x))"
  by (simp add: mark_def spread_def step_def Let_def)

lemma step_skip:
  "\<not> (is_valid s h w \<and> \<not> (h = y \<and> w = x) \<and> geti s h w \<noteq> REVEAL) \<Longrightarrow>
   step n y x h w s = Some s"
  unfolding step_def by (rule if_not_P)

lemma step_call:
  "is_valid s h w \<and> \<not> (h = y \<and> w = x) \<and> geti s h w \<noteq> REVEAL \<Longrightarrow>
   step n y x h w s = r_reveal n h w s"
  unfolding step_def by (rule if_P)

lemma mark_frame: "r_frame s (mark s y x)"
  by (simp add: mark_def r_frame_def)

lemma mark_flags [simp]:
  "lose (mark s y x) = lose s" "win (mark s y x) = win s" "done_flag (mark s y x) = done_flag s"
  by (simp_all add: mark_def)

lemma get_mark [simp]: "get (mark s y x) h w = get s h w"
  by (simp add: mark_def)

lemma spread_rule:
  assumes r: "spread n y x s = Some s'" and y0: "- 127 \<le> sint y" and x0: "- 127 \<le> sint x"
    and I: "I s"
    and st: "\<And>h w b b'. I b \<Longrightarrow> sint y - 1 \<le> sint h \<Longrightarrow> sint h \<le> sint y + 1 \<Longrightarrow>
             sint x - 1 \<le> sint w \<Longrightarrow> sint w \<le> sint x + 1 \<Longrightarrow> step n y x h w b = Some b' \<Longrightarrow> I b'"
  shows "I s'"
proof -
  have sy: "sint (word_of_int (sint y - 1) :: TCell) = sint y - 1"
    using y0 by (simp add: sint_dec)
  have sx: "sint (word_of_int (sint x - 1) :: TCell) = sint x - 1"
    using x0 by (simp add: sint_dec)
  show ?thesis
  proof (rule for_le_rule[OF r[unfolded spread_def], where I = I, OF I])
    fix h b b'
    assume Ib: "I b" and h: "sint (word_of_int (sint y - 1) :: TCell) \<le> sint h" "sint h \<le> sint y + 1"
      and row: "for_le n (word_of_int (sint x - 1)) (sint x + 1) (\<lambda>w s. step n y x h w s) b = Some b'"
    show "I b'"
    proof (rule for_le_rule[OF row, where I = I, OF Ib])
      fix w c c'
      assume "I c" "sint (word_of_int (sint x - 1) :: TCell) \<le> sint w" "sint w \<le> sint x + 1"
        "step n y x h w c = Some c'"
      then show "I c'" using st[of c h w c'] h sy sx by simp
    qed
  qed
qed

lemma r_reveal_safe:
  "r_reveal n y x s = Some s' \<Longrightarrow>
   r_frame s s' \<and> (counts_ok s \<longrightarrow> \<not> lose s \<longrightarrow> get s y x \<noteq> MINE \<longrightarrow> \<not> lose s')"
proof (induction n arbitrary: y x s s')
  case 0
  then show ?case by simp
next
  case (Suc n)
  let ?m = "mark s y x"
  note fm = mark_frame[of s y x]
  consider (same) "s' = s"
    | (mine) "get s y x = MINE"
    | (won) "s' = ?m\<lparr>win := True, lose := False, done_flag := True\<rparr>"
    | (spread) "get s y x = 48" "spread n y x ?m = Some s'"
    | (stop) "s' = ?m"
    using Suc.prems unfolding r_reveal_Suc by (auto split: if_splits)
  then show ?case
  proof cases
    case same
    then show ?thesis by simp
  next
    case mine
    have "r_frame s s'" using Suc.prems fm unfolding r_reveal_Suc
      by (auto split: if_splits simp: r_frame_def mine cell_defs)
    then show ?thesis using mine by simp
  next
    case won
    then show ?thesis using fm by (simp add: r_frame_def)
  next
    case stop
    then show ?thesis using fm by simp
  next
    case spread
    have v: "is_valid s y x" using spread(1) by (intro get_valid) (simp add: cell_defs)
    then have y0: "- 127 \<le> sint y" and x0: "- 127 \<le> sint x" by (simp_all add: is_valid_def)
    let ?C = "counts_ok s \<and> \<not> lose s"
    let ?I = "\<lambda>b. r_frame s b \<and> (?C \<longrightarrow> \<not> lose b)"
    have I0: "?I ?m" using fm by simp
    have "?I s'"
    proof (rule spread_rule[OF spread(2) y0 x0, where I = ?I, OF I0])
      fix h w b b'
      assume Ib: "?I b" and hb: "sint y - 1 \<le> sint h" "sint h \<le> sint y + 1"
        and wb: "sint x - 1 \<le> sint w" "sint w \<le> sint x + 1"
        and stp: "step n y x h w b = Some b'"
      show "?I b'"
      proof (cases "is_valid b h w \<and> \<not> (h = y \<and> w = x) \<and> geti b h w \<noteq> REVEAL")
        case False
        then have "b' = b" using stp step_skip[OF False, of n] by simp
        then show ?thesis using Ib by simp
      next
        case True
        then have rr: "r_reveal n h w b = Some b'" using stp step_call[OF True, of n] by simp
        note IH = Suc.IH[OF rr]
        have fr: "r_frame s b'" using Ib IH r_frame_trans by blast
        have "\<not> lose b'" if C: "?C"
        proof -
          have ok: "counts_ok b" using C Ib r_frame_counts_ok[of s b] by simp
          have nl: "\<not> lose b" using C Ib by simp
          have vb: "is_valid b y x" using v Ib r_frame_is_valid[of s b] by simp
          have zb: "get b y x = 48" using spread(1) Ib r_frame_get[of s b] by simp
          have ne: "\<not> (h = y \<and> w = x)" using True by simp
          from zero_no_mine_neighbors[OF ok vb zb hb wb ne]
          have "get b h w \<noteq> MINE" using True by (simp add: mine_at_get)
          with IH ok nl show ?thesis by simp
        qed
        with fr show ?thesis by simp
      qed
    qed
    then show ?thesis by simp
  qed
qed

lemma first_reveal_loop_Some:
  assumes "first_reveal_loop n rng (p, s) = Some (p', s1)"
    and "revealCount s = 0" "\<not> lose s" "counts_ok s"
  shows "revealCount s1 = 0 \<and> \<not> lose s1 \<and> counts_ok s1 \<and>
         get s1 (curY s1) (curX s1) \<noteq> MINE \<and> curY s1 = curY s \<and> curX s1 = curX s \<and>
         height s1 = height s \<and> width s1 = width s \<and> mines s1 = mines s"
  using assms
proof (induction n arbitrary: p s)
  case 0
  then show ?case by simp
next
  case (Suc n)
  show ?case
  proof (cases "get s (curY s) (curX s) = MINE")
    case False
    then have "s1 = s" using Suc.prems(1) by simp
    then show ?thesis using Suc.prems False by simp
  next
    case True
    then obtain p2 s2 where i: "init n rng (p, s) = Some (p2, s2)"
      and l: "first_reveal_loop n rng (p2, s2) = Some (p', s1)"
      using Suc.prems(1,2) by (auto split: option.splits)
    note I = init_Some[OF i]
    have "revealCount s2 = 0" "\<not> lose s2" "counts_ok s2" using I by simp_all
    from Suc.IH[OF l this] I show ?thesis by auto
  qed
qed

lemma counts_ok_fresh_3x3: "counts_ok fresh_3x3"
  using init_Some[OF new_3x3[unfolded SBoard_new_def]] by simp

lemma reveal_3x3_on_mine: "reveal 30 (\<lambda>i. i) (4, fresh_3x3\<lparr>curX := 1\<rparr>) = Some (12, first_3x3)"
  by code_simp

section \<open>The loops over the neighbours, unrolled\<close>

lemma for_le_nest_Some:
  assumes r: "for_le n (word_of_int (sint y - 1)) (sint y + 1)
       (\<lambda>h a. for_le n (word_of_int (sint x - 1)) (sint x + 1) (\<lambda>w a. f h w a) a) a = Some a'"
    and y0: "- 127 \<le> sint y" and x0: "- 127 \<le> sint x"
  shows "sint y < 126 \<and> sint x < 126 \<and> seq_cells f (nbrs y x) a = Some a'"
proof -
  let ?row = "\<lambda>h a. for_le n (x - 1) (sint x + 1) (\<lambda>w a. f h w a) a"
  have r': "for_le n (y - 1) (sint y + 1) ?row a = Some a'" using r by simp
  from for_le3_Some[OF r' y0] obtain a1 a2 where
    ylt: "sint y < 126" and
    rows: "?row (y - 1) a = Some a1" "?row y a1 = Some a2" "?row (y + 1) a2 = Some a'"
    by blast
  from for_le3_Some[OF rows(1) x0] obtain b1 b2 where xlt: "sint x < 126"
    and 1: "f (y - 1) (x - 1) a = Some b1" "f (y - 1) x b1 = Some b2" "f (y - 1) (x + 1) b2 = Some a1"
    by blast
  from for_le3_Some[OF rows(2) x0] obtain b3 b4 where
    2: "f y (x - 1) a1 = Some b3" "f y x b3 = Some b4" "f y (x + 1) b4 = Some a2"
    by blast
  from for_le3_Some[OF rows(3) x0] obtain b5 b6 where
    3: "f (y + 1) (x - 1) a2 = Some b5" "f (y + 1) x b5 = Some b6" "f (y + 1) (x + 1) b6 = Some a'"
    by blast
  have "seq_cells f (nbrs y x) a = Some a'"
    unfolding nbrs_def using 1 2 3 by simp
  with ylt xlt show ?thesis by simp
qed

lemma for_le3_eq:
  assumes "- 127 \<le> sint y" "sint y < 126"
  shows "for_le (Suc (Suc (Suc (Suc m)))) (y - 1) (sint y + 1) body a =
     (case body (y - 1) a of None \<Rightarrow> None
      | Some a1 \<Rightarrow> (case body y a1 of None \<Rightarrow> None
      | Some a2 \<Rightarrow> body (y + 1) a2))"
proof -
  have s0: "sint (y - 1) = sint y - 1" using assms(1) by (simp add: sint_dec)
  have s1: "sint (y + 1) = sint y + 1" using assms(2) by (simp add: sint_inc)
  have s2: "sint (y + 1 + 1) = sint y + 2" using assms(2) s1 sint_inc[of "y + 1"] by simp
  have e: "for_le (Suc m) (y + 1 + 1) (sint y + 1) body b = Some b" for b using s2 by simp
  have f: "for_le (Suc (Suc m)) (y + 1) (sint y + 1) body b = body (y + 1) b" for b
  proof -
    have "for_le (Suc (Suc m)) (y + 1) (sint y + 1) body b =
      (case body (y + 1) b of None \<Rightarrow> None
       | Some c \<Rightarrow> for_le (Suc m) (y + 1 + 1) (sint y + 1) body c)"
      using s1 by (subst for_le.simps(2)) simp
    then show ?thesis unfolding e by (simp split: option.splits)
  qed
  have g: "for_le (Suc (Suc (Suc m))) y (sint y + 1) body b =
      (case body y b of None \<Rightarrow> None | Some c \<Rightarrow> body (y + 1) c)" for b
  proof -
    have "for_le (Suc (Suc (Suc m))) y (sint y + 1) body b =
      (case body y b of None \<Rightarrow> None
       | Some c \<Rightarrow> for_le (Suc (Suc m)) (y + 1) (sint y + 1) body c)"
      by (subst for_le.simps(2)) simp
    then show ?thesis unfolding f .
  qed
  have "for_le (Suc (Suc (Suc (Suc m)))) (y - 1) (sint y + 1) body a =
      (case body (y - 1) a of None \<Rightarrow> None
       | Some c \<Rightarrow> for_le (Suc (Suc (Suc m))) (y - 1 + 1) (sint y + 1) body c)"
    using s0 by (subst for_le.simps(2)) simp
  also have "y - 1 + 1 = y" by simp
  finally show ?thesis unfolding g .
qed

lemma for_le_nest_eq:
  assumes y: "- 127 \<le> sint y" "sint y < 126" and x: "- 127 \<le> sint x" "sint x < 126"
  shows "for_le (Suc (Suc (Suc (Suc m)))) (word_of_int (sint y - 1)) (sint y + 1)
       (\<lambda>h a. for_le (Suc (Suc (Suc (Suc m)))) (word_of_int (sint x - 1)) (sint x + 1) (\<lambda>w a. f h w a) a) a
     = seq_cells f (nbrs y x) a"
proof -
  have wy: "(word_of_int (sint y - 1) :: TCell) = y - 1" by simp
  have wx: "(word_of_int (sint x - 1) :: TCell) = x - 1" by simp
  show ?thesis
    unfolding wy wx for_le3_eq[OF y] for_le3_eq[OF x] nbrs_def
    by (simp split: option.splits)
qed

lemma for_le_sim:
  assumes "\<And>j a l. map_option fst (body2 j (a, l)) = body1 j a"
  shows "map_option fst (for_le n i hi body2 (a, l)) = for_le n i hi body1 a"
proof (induction n arbitrary: i a l)
  case 0
  then show ?case by simp
next
  case (Suc n)
  show ?case
  proof (cases "body2 i (a, l)")
    case None
    then have "body1 i a = None" using assms[of i a l] by simp
    then show ?thesis using None by simp
  next
    case (Some r)
    obtain a' l' where r: "r = (a', l')" by (cases r)
    have "body1 i a = Some a'" using assms[of i a l] Some r by simp
    then show ?thesis using Some r Suc.IH[of "i + 1" a' l'] by simp
  qed
qed

lemma filter_update_hidden:
  "i < length xs \<Longrightarrow> xs ! i \<noteq> v \<Longrightarrow>
   Suc (length (filter (\<lambda>u. u \<noteq> v) (xs[i := v]))) = length (filter (\<lambda>u. u \<noteq> v) xs)"
proof (induction xs arbitrary: i)
  case Nil
  then show ?case by simp
next
  case (Cons a xs)
  then show ?case by (cases i) auto
qed

lemma geti_mark:
  assumes "wf_i s"
  shows "geti (mark s y x) h w = (if is_valid s y x \<and> h = y \<and> w = x then REVEAL else geti s h w)"
  using assms unfolding mark_def wf_i_def by (auto simp: geti_seti)

lemma wf_i_mark: "wf_i s \<Longrightarrow> wf_i (mark s y x)"
  by (simp add: wf_i_def mark_def)

lemma hidden_mark:
  assumes "wf_i s"
  shows "hidden (mark s y x) =
     (if is_valid s y x \<and> geti s y x \<noteq> REVEAL then hidden s - 1 else hidden s)"
proof (cases "is_valid s y x \<and> geti s y x \<noteq> REVEAL")
  case False
  then show ?thesis by (auto simp: mark_def hidden_def seti_def)
next
  case True
  have i: "cell_index s y x < length (input_board s)"
    using cell_index_less[of s y x] True assms by (simp add: wf_i_def)
  have c: "input_board s ! cell_index s y x \<noteq> REVEAL" using True by (auto simp: geti_def)
  have "input_board (mark s y x) = (input_board s)[cell_index s y x := REVEAL]"
    using True by (simp add: mark_def seti_def)
  then show ?thesis using filter_update_hidden[OF i c] True unfolding hidden_def by simp
qed

lemma hidden_le: "wf_i s \<Longrightarrow> hidden s \<le> nat (sint (width s) * sint (height s))"
  unfolding hidden_def wf_i_def using length_filter_le[of "\<lambda>v. v \<noteq> REVEAL" "input_board s"] by simp

lemma r_frame_loops_exit: "r_frame s s' \<Longrightarrow> loops_exit s' = loops_exit s"
  by (simp add: loops_exit_def r_frame_def is_valid_def get_def cell_index_def)

section \<open>The flood fill reveals its region\<close>

lemma grows_refl [simp]: "grows s s"
  by (simp add: grows_def)

lemma grows_trans: "grows s s' \<Longrightarrow> grows s' s'' \<Longrightarrow> grows s s''"
  unfolding grows_def using r_frame_trans by metis

lemma grows_frame: "grows s s' \<Longrightarrow> r_frame s s'"
  by (simp add: grows_def)

lemma grows_mark: "wf_i s \<Longrightarrow> geti s y x \<noteq> FLAGGED \<Longrightarrow> grows s (mark s y x)"
  unfolding grows_def using mark_frame[of s y x]
  by (auto simp: geti_mark is_done_def)

lemma grows_flags: "grows s t \<Longrightarrow> grows s (t\<lparr>win := a, lose := b, done_flag := True\<rparr>)"
  unfolding grows_def by (simp add: r_frame_def is_done_def)

lemma wf_i_frame: "r_frame s s' \<Longrightarrow> wf_i s \<Longrightarrow> wf_i s'"
  by (simp add: wf_i_def r_frame_def)

lemma r_reveal_grows:
  "r_reveal n y x s = Some s' \<Longrightarrow> wf_i s \<Longrightarrow> grows s s'"
proof (induction n arbitrary: y x s s')
  case 0
  then show ?case by simp
next
  case (Suc n)
  let ?m = "mark s y x"
  have cases: "s' = s \<or>
      (geti s y x \<noteq> FLAGGED \<and> (s' = ?m\<lparr>win := False, lose := True, done_flag := True\<rparr> \<or>
         s' = ?m\<lparr>win := True, lose := False, done_flag := True\<rparr> \<or> s' = ?m \<or>
         (get s y x = 48 \<and> spread n y x ?m = Some s')))"
    using Suc.prems(1) unfolding r_reveal_Suc by (simp split: if_splits)
  show ?case
  proof (cases "s' = s")
    case True
    then show ?thesis by simp
  next
    case False
    then have nf: "geti s y x \<noteq> FLAGGED" using cases by blast
    note gm = grows_mark[OF Suc.prems(2) nf]
    from cases False consider (ended) a b where "s' = ?m\<lparr>win := a, lose := b, done_flag := True\<rparr>"
      | (stop) "s' = ?m" | (spread) "get s y x = 48" "spread n y x ?m = Some s'"
      by blast
    then show ?thesis
    proof cases
      case ended
      then show ?thesis using grows_flags[OF gm] by simp
    next
      case stop
      then show ?thesis using gm by simp
    next
      case spread
      have v: "is_valid s y x" using spread(1) by (intro get_valid) (simp add: cell_defs)
      then have y0: "- 127 \<le> sint y" and x0: "- 127 \<le> sint x" by (simp_all add: is_valid_def)
      let ?I = "\<lambda>b. grows ?m b"
      have "?I s'"
      proof (rule spread_rule[OF spread(2) y0 x0, where I = ?I])
        show "?I ?m" by simp
      next
        fix h w b b'
        assume Ib: "?I b" and stp: "step n y x h w b = Some b'"
        have wb: "wf_i b"
          using wf_i_frame[OF grows_frame[OF Ib] wf_i_mark[OF Suc.prems(2)]] .
        show "?I b'"
        proof (cases "is_valid b h w \<and> \<not> (h = y \<and> w = x) \<and> geti b h w \<noteq> REVEAL")
          case False
          then show ?thesis using stp step_skip[OF False, of n] Ib by simp
        next
          case True
          then have "r_reveal n h w b = Some b'" using stp step_call[OF True, of n] by simp
          from Suc.IH[OF this wb] Ib show ?thesis by (rule grows_trans[rotated])
        qed
      qed
      with gm show ?thesis by (rule grows_trans)
    qed
  qed
qed

lemma grows_geti_hidden: "grows s b \<Longrightarrow> geti b h w \<noteq> REVEAL \<Longrightarrow> geti s h w = geti b h w"
  unfolding grows_def by metis

lemma grows_revealed: "grows s b \<Longrightarrow> geti s h w = REVEAL \<Longrightarrow> geti b h w = REVEAL"
  unfolding grows_def by metis

lemma grows_flagged: "grows s b \<Longrightarrow> geti s h w = FLAGGED \<Longrightarrow> geti b h w = FLAGGED"
  unfolding grows_def by metis

lemma grows_get: "grows s b \<Longrightarrow> get b h w = get s h w"
  using r_frame_get[of s b] by (simp add: grows_def)

lemma grows_is_valid: "grows s b \<Longrightarrow> is_valid b h w = is_valid s h w"
  using r_frame_is_valid[of s b] by (simp add: grows_def)

lemma flood_root: "flood s y0 x0 y x \<Longrightarrow> is_valid s y0 x0 \<and> geti s y0 x0 \<noteq> FLAGGED"
  by (induction rule: flood.induct) simp_all

lemma flood_cell:
  "flood s y0 x0 y x \<Longrightarrow>
   is_valid s y x \<and> geti s y x \<noteq> FLAGGED \<and> ((y = y0 \<and> x = x0) \<or> geti s y x \<noteq> REVEAL)"
  by (induction rule: flood.induct) simp_all

lemma flood_shift:
  assumes g: "grows s b" and f0: "flood s y x h w"
  shows "flood b h w c d \<Longrightarrow> flood s y x c d"
proof (induction rule: flood.induct)
  case start
  then show ?case using f0 by simp
next
  case (spread c' d' c d)
  have 1: "get s c' d' = 48" using spread(2) grows_get[OF g] by simp
  have 2: "is_valid s c d" using spread(4) grows_is_valid[OF g] by simp
  have 3: "geti s c d = geti b c d" using grows_geti_hidden[OF g spread(5)] .
  show ?case
    by (rule flood.spread[OF spread.IH 1 spread(3) 2]) (simp_all add: 3 spread(5,6))
qed

lemma r_reveal_sound:
  "r_reveal n y x s = Some s' \<Longrightarrow> wf_i s \<Longrightarrow> is_valid s y x \<Longrightarrow>
   \<forall>h w. is_valid s h w \<longrightarrow> geti s' h w = REVEAL \<longrightarrow> geti s h w = REVEAL \<or> flood s y x h w"
proof (induction n arbitrary: y x s s')
  case 0
  then show ?case by simp
next
  case (Suc n)
  let ?m = "mark s y x"
  note wf = Suc.prems(2) and v = Suc.prems(3)
  have cases: "s' = s \<or>
      (geti s y x \<noteq> FLAGGED \<and> (s' = ?m\<lparr>win := False, lose := True, done_flag := True\<rparr> \<or>
         s' = ?m\<lparr>win := True, lose := False, done_flag := True\<rparr> \<or> s' = ?m \<or>
         (get s y x = 48 \<and> spread n y x ?m = Some s')))"
    using Suc.prems(1) unfolding r_reveal_Suc by (simp split: if_splits)
  show ?case
  proof (cases "s' = s")
    case True
    then show ?thesis by simp
  next
    case False
    then have nf: "geti s y x \<noteq> FLAGGED" using cases by blast
    have st: "flood s y x y x" by (rule flood.start[OF v nf])
    have m: "geti ?m h w = REVEAL \<longrightarrow> geti s h w = REVEAL \<or> flood s y x h w" for h w
      using st by (auto simp: geti_mark[OF wf] split: if_splits)
    from cases False consider (ended) a b where "s' = ?m\<lparr>win := a, lose := b, done_flag := True\<rparr>"
      | (stop) "s' = ?m" | (spread) "get s y x = 48" "spread n y x ?m = Some s'"
      by blast
    then show ?thesis
    proof cases
      case ended
      then show ?thesis using m by simp
    next
      case stop
      then show ?thesis using m by simp
    next
      case spread
      have y0: "- 127 \<le> sint y" and x0: "- 127 \<le> sint x" using v by (simp_all add: is_valid_def)
      have gm: "grows s ?m" by (rule grows_mark[OF wf nf])
      let ?I = "\<lambda>b. grows ?m b \<and>
         (\<forall>h w. is_valid s h w \<longrightarrow> geti b h w = REVEAL \<longrightarrow> geti s h w = REVEAL \<or> flood s y x h w)"
      have "?I s'"
      proof (rule spread_rule[OF spread(2) y0 x0, where I = ?I])
        show "?I ?m" using m by simp
      next
        fix h w b b'
        assume Ib: "?I b" and hb: "sint y - 1 \<le> sint h" "sint h \<le> sint y + 1"
          and wb: "sint x - 1 \<le> sint w" "sint w \<le> sint x + 1"
          and stp: "step n y x h w b = Some b'"
        have gb: "grows s b" using gm Ib by (blast intro: grows_trans)
        have wfb: "wf_i b" using wf_i_frame[OF grows_frame[OF gb] wf] .
        show "?I b'"
        proof (cases "is_valid b h w \<and> \<not> (h = y \<and> w = x) \<and> geti b h w \<noteq> REVEAL")
          case False
          then show ?thesis using stp step_skip[OF False, of n] Ib by simp
        next
          case True
          then have rr: "r_reveal n h w b = Some b'" using stp step_call[OF True, of n] by simp
          have vb: "is_valid b h w" using True by simp
          have g': "grows ?m b'" using Ib r_reveal_grows[OF rr wfb] by (blast intro: grows_trans)
          have snd: "geti s c d = REVEAL \<or> flood s y x c d"
            if c: "is_valid s c d" "geti b' c d = REVEAL" for c d
          proof (cases "geti b c d = REVEAL")
            case True
            then show ?thesis using Ib c(1) by blast
          next
            case nr: False
            have "is_valid b c d" using c(1) grows_is_valid[OF gb] by simp
            with Suc.IH[OF rr wfb vb] c(2) nr have fl: "flood b h w c d" by blast
            then have nfb: "geti b h w \<noteq> FLAGGED" using flood_root by blast
            have e: "geti s h w = geti b h w" using grows_geti_hidden[OF gb] True by simp
            have nr: "near y x h w" using hb wb True by (simp add: near_def)
            have vs: "is_valid s h w" using vb grows_is_valid[OF gb] by simp
            have "flood s y x h w"
              by (rule flood.spread[OF st spread(1) nr vs]) (use e True nfb in simp_all)
            from flood_shift[OF gb this fl] show ?thesis by simp
          qed
          show ?thesis using g' snd by blast
        qed
      qed
      then show ?thesis by blast
    qed
  qed
qed

lemma r_reveal_Suc_cases:
  assumes "r_reveal (Suc n) y x s = Some s'"
  obtains (finished) "is_done s" "s' = s"
    | (flagged) "\<not> is_done s" "geti s y x = FLAGGED" "s' = s"
    | (ended) a b where "\<not> is_done s" "geti s y x \<noteq> FLAGGED"
        "s' = (mark s y x)\<lparr>win := a, lose := b, done_flag := True\<rparr>"
    | (stop) "\<not> is_done s" "geti s y x \<noteq> FLAGGED" "get s y x \<noteq> 48" "s' = mark s y x"
    | (spread) "\<not> is_done s" "geti s y x \<noteq> FLAGGED" "get s y x = 48"
        "spread n y x (mark s y x) = Some s'"
proof -
  have "(is_done s \<and> s' = s) \<or> (\<not> is_done s \<and> geti s y x = FLAGGED \<and> s' = s) \<or>
      (\<not> is_done s \<and> geti s y x \<noteq> FLAGGED \<and>
        (s' = (mark s y x)\<lparr>win := False, lose := True, done_flag := True\<rparr> \<or>
         s' = (mark s y x)\<lparr>win := True, lose := False, done_flag := True\<rparr>)) \<or>
      (\<not> is_done s \<and> geti s y x \<noteq> FLAGGED \<and> get s y x \<noteq> 48 \<and> s' = mark s y x) \<or>
      (\<not> is_done s \<and> geti s y x \<noteq> FLAGGED \<and> get s y x = 48 \<and> spread n y x (mark s y x) = Some s')"
    using assms unfolding r_reveal_Suc by (simp split: if_splits)
  then show ?thesis using that by blast
qed

lemma seq_cells_each:
  assumes "seq_cells f cs a = Some a'" "I a"
    and st: "\<And>h w b b'. I b \<Longrightarrow> (h, w) \<in> set cs \<Longrightarrow> f h w b = Some b' \<Longrightarrow>
               I b' \<and> grows b b' \<and> Q h w b'"
    and stab: "\<And>h w b b'. Q h w b \<Longrightarrow> grows b b' \<Longrightarrow> Q h w b'"
  shows "I a' \<and> grows a a' \<and> (\<forall>(h, w) \<in> set cs. Q h w a')"
  using assms(1,2,3)
proof (induction cs arbitrary: a)
  case Nil
  then show ?case by simp
next
  case (Cons c cs)
  obtain h w where c: "c = (h, w)" by (cases c)
  from Cons.prems(1) obtain b where b: "f h w a = Some b" and rest: "seq_cells f cs b = Some a'"
    unfolding c by (auto split: option.splits)
  from Cons.prems(3)[OF Cons.prems(2) _ b] have 1: "I b" "grows a b" "Q h w b"
    unfolding c by simp_all
  have "I a' \<and> grows b a' \<and> (\<forall>(h, w) \<in> set cs. Q h w a')"
  proof (rule Cons.IH[OF rest 1(1)])
    fix h' w' d d'
    assume "I d" "(h', w') \<in> set cs" "f h' w' d = Some d'"
    then show "I d' \<and> grows d d' \<and> Q h' w' d'" using Cons.prems(3)[of d h' w' d'] by simp
  qed
  then have 2: "I a'" "grows b a'" "\<forall>(h, w) \<in> set cs. Q h w a'" by simp_all
  have "Q h w a'" by (rule stab[OF 1(3) 2(2)])
  then show ?case using 2 grows_trans[OF 1(2) 2(2)] unfolding c by simp
qed

lemma near_nbrs:
  assumes "near y x h w" "- 127 \<le> sint y" "sint y < 126" "- 127 \<le> sint x" "sint x < 126"
  shows "(h, w) \<in> set (nbrs y x)"
proof -
  have sy: "sint (y - 1) = sint y - 1" "sint (y + 1) = sint y + 1"
    using assms(2,3) by (simp_all add: sint_dec sint_inc)
  have sx: "sint (x - 1) = sint x - 1" "sint (x + 1) = sint x + 1"
    using assms(4,5) by (simp_all add: sint_dec sint_inc)
  have "sint h = sint (y - 1) \<or> sint h = sint y \<or> sint h = sint (y + 1)"
    using assms(1) unfolding near_def sy by linarith
  then have h: "h = y - 1 \<or> h = y \<or> h = y + 1" by (auto dest: sint_eq_TCell)
  have "sint w = sint (x - 1) \<or> sint w = sint x \<or> sint w = sint (x + 1)"
    using assms(1) unfolding near_def sx by linarith
  then have w: "w = x - 1 \<or> w = x \<or> w = x + 1" by (auto dest: sint_eq_TCell)
  show ?thesis using h w unfolding nbrs_def by auto
qed

lemma closed_grows: "closed b c d \<Longrightarrow> grows b b' \<Longrightarrow> closed b' c d"
  unfolding closed_def
  using grows_is_valid[of b b'] grows_revealed[of b b'] grows_flagged[of b b'] by blast

lemma grows_done: "grows b b' \<Longrightarrow> \<not> is_done b' \<Longrightarrow> \<not> is_done b"
  by (auto simp: grows_def)

lemma spread_seq:
  assumes "spread n y x s = Some s'" "- 127 \<le> sint y" "- 127 \<le> sint x"
  shows "sint y < 126 \<and> sint x < 126 \<and> seq_cells (step n y x) (nbrs y x) s = Some s'"
  using for_le_nest_Some[of n y x "step n y x" s s'] assms unfolding spread_def by simp

lemma r_reveal_closed:
  "r_reveal n y x s = Some s' \<Longrightarrow> wf_i s \<Longrightarrow> is_valid s y x \<Longrightarrow>
   is_done s' \<or> ((geti s y x = FLAGGED \<or> geti s' y x = REVEAL) \<and> fresh_closed s s' y x)"
proof (induction n arbitrary: y x s s')
  case 0
  then show ?case by simp
next
  case (Suc n)
  let ?m = "mark s y x"
  note wf = Suc.prems(2) and v = Suc.prems(3)
  from Suc.prems(1) show ?case
  proof (cases rule: r_reveal_Suc_cases)
    case finished
    then show ?thesis by simp
  next
    case flagged
    then show ?thesis by (auto simp: fresh_closed_def cell_defs)
  next
    case (ended a b)
    then show ?thesis by (simp add: is_done_def)
  next
    case stop
    have "geti ?m y x = REVEAL" using v by (simp add: geti_mark[OF wf])
    moreover have "fresh_closed s ?m y x"
      unfolding fresh_closed_def using stop(3) by (auto simp: geti_mark[OF wf] split: if_splits)
    ultimately show ?thesis using stop(4) by simp
  next
    case spread
    have y0: "- 127 \<le> sint y" and x0: "- 127 \<le> sint x" using v by (simp_all add: is_valid_def)
    note sq = spread_seq[OF spread(4) y0 x0]
    have gm: "grows s ?m" by (rule grows_mark[OF wf spread(2)])
    let ?N = "\<lambda>b. is_done b \<or> (\<forall>c d. is_valid s c d \<longrightarrow> geti b c d = REVEAL \<longrightarrow>
                 geti ?m c d \<noteq> REVEAL \<longrightarrow> get s c d = 48 \<longrightarrow> closed b c d)"
    let ?I = "\<lambda>b. grows ?m b \<and> ?N b"
    let ?Q = "\<lambda>h w b. is_done b \<or> (is_valid s h w \<longrightarrow> \<not> (h = y \<and> w = x) \<longrightarrow>
                 geti b h w = REVEAL \<or> geti b h w = FLAGGED)"
    have I0: "?I ?m" by simp
    have res: "?I s' \<and> grows ?m s' \<and> (\<forall>(h, w) \<in> set (nbrs y x). ?Q h w s')"
    proof (rule seq_cells_each[where I = ?I and Q = ?Q, OF conjunct2[OF conjunct2[OF sq]] I0])
      fix h w b b'
      assume "?Q h w b" "grows b b'"
      then show "?Q h w b'"
        using grows_revealed[of b b' h w] grows_flagged[of b b' h w]
        by (auto simp: grows_def)
    next
      fix h w b b'
      assume Ib: "?I b" and stp: "step n y x h w b = Some b'"
      have gb: "grows s b" using gm Ib by (blast intro: grows_trans)
      have wfb: "wf_i b" using wf_i_frame[OF grows_frame[OF gb] wf] .
      have vb: "is_valid b c d = is_valid s c d" for c d using grows_is_valid[OF gb] by simp
      show "?I b' \<and> grows b b' \<and> ?Q h w b'"
      proof (cases "is_valid b h w \<and> \<not> (h = y \<and> w = x) \<and> geti b h w \<noteq> REVEAL")
        case False
        then have e: "b' = b" using stp step_skip[OF False, of n] by simp
        have "?Q h w b" using False vb by auto
        then show ?thesis unfolding e using Ib by simp
      next
        case True
        then have rr: "r_reveal n h w b = Some b'" using stp step_call[OF True, of n] by simp
        have vh: "is_valid b h w" using True by simp
        have gbb: "grows b b'" by (rule r_reveal_grows[OF rr wfb])
        have g': "grows ?m b'" using Ib gbb by (blast intro: grows_trans)
        note IH = Suc.IH[OF rr wfb vh]
        have Q: "?Q h w b'"
          using IH grows_flagged[OF gbb, of h w] by auto
        have N: "?N b'"
        proof (cases "is_done b'")
          case True
          then show ?thesis by simp
        next
          case nd: False
          have ndb: "\<not> is_done b" by (rule grows_done[OF gbb nd])
          have fc: "fresh_closed b b' h w" using IH nd by simp
          have "closed b' c d"
            if c: "is_valid s c d" "geti b' c d = REVEAL" "geti ?m c d \<noteq> REVEAL" "get s c d = 48" for c d
          proof (cases "geti b c d = REVEAL")
            case True
            then have "closed b c d" using Ib ndb c by blast
            then show ?thesis by (rule closed_grows[OF _ gbb])
          next
            case False
            have "get b c d = 48" using c(4) grows_get[OF gb] by simp
            then show ?thesis using fc c(1,2) False vb unfolding fresh_closed_def by blast
          qed
          then show ?thesis by blast
        qed
        show ?thesis using g' N gbb Q by blast
      qed
    qed
    show ?thesis
    proof (cases "is_done s'")
      case True
      then show ?thesis by simp
    next
      case nd: False
      have gs': "grows ?m s'" using res by simp
      have "geti ?m y x = REVEAL" using v by (simp add: geti_mark[OF wf])
      then have r: "geti s' y x = REVEAL" by (rule grows_revealed[OF gs'])
      have vs': "is_valid s' c d = is_valid s c d" for c d
        using grows_is_valid[OF grows_trans[OF gm gs']] by simp
      have cl: "closed s' y x"
        unfolding closed_def
      proof (intro allI impI)
        fix h w assume nr: "near y x h w" and vv: "is_valid s' h w"
        have "(h, w) \<in> set (nbrs y x)"
          by (rule near_nbrs[OF nr y0 conjunct1[OF sq] x0 conjunct1[OF conjunct2[OF sq]]])
        then have "?Q h w s'" using res by blast
        then show "geti s' h w = REVEAL \<or> geti s' h w = FLAGGED"
          using nd vv vs' nr by (auto simp: near_def)
      qed
      have "fresh_closed s s' y x"
        unfolding fresh_closed_def
      proof (intro allI impI)
        fix c d
        assume c: "is_valid s c d" "geti s' c d = REVEAL" "geti s c d \<noteq> REVEAL \<or> c = y \<and> d = x"
          "get s c d = 48"
        show "closed s' c d"
        proof (cases "c = y \<and> d = x")
          case True
          then show ?thesis using cl by simp
        next
          case False
          then have "geti ?m c d \<noteq> REVEAL" using c(3) by (auto simp: geti_mark[OF wf])
          then show ?thesis using res nd c by blast
        qed
      qed
      with r show ?thesis by simp
    qed
  qed
qed

lemma counted_refl [simp]: "counted s s"
  by (simp add: counted_def)

lemma counted_trans: "counted s b \<Longrightarrow> counted b b' \<Longrightarrow> counted s b'"
proof -
  assume a: "counted s b" "counted b b'"
  then have le: "hidden b \<le> hidden s" "hidden b' \<le> hidden b" by (simp_all add: counted_def)
  then have "hidden s - hidden b' = (hidden s - hidden b) + (hidden b - hidden b')" by arith
  then show ?thesis using a le by (simp add: counted_def)
qed

lemma counted_mark: "wf_i s \<Longrightarrow> is_valid s y x \<Longrightarrow> counted s (mark s y x)"
proof -
  assume wf: "wf_i s" and v: "is_valid s y x"
  show ?thesis
  proof (cases "geti s y x = REVEAL")
    case True
    then show ?thesis by (simp add: mark_def)
  next
    case False
    have i: "cell_index s y x < length (input_board s)"
      using cell_index_less[OF v] wf by (simp add: wf_i_def)
    have c: "input_board s ! cell_index s y x \<noteq> REVEAL" using False v by (simp add: geti_def)
    have "input_board (mark s y x) = (input_board s)[cell_index s y x := REVEAL]"
      using False v by (simp add: mark_def seti_def)
    then have "Suc (hidden (mark s y x)) = hidden s"
      using filter_update_hidden[OF i c] unfolding hidden_def by simp
    moreover have "revealCount (mark s y x) = revealCount s + 1" using False by (simp add: mark_def)
    moreover from calculation have "hidden s - hidden (mark s y x) = 1" by arith
    ultimately show ?thesis unfolding counted_def by simp
  qed
qed

lemma counted_flags: "counted s t \<Longrightarrow> counted s (t\<lparr>win := a, lose := b, done_flag := c\<rparr>)"
  by (simp add: counted_def hidden_def)

lemma r_reveal_counted:
  "r_reveal n y x s = Some s' \<Longrightarrow> wf_i s \<Longrightarrow> is_valid s y x \<Longrightarrow> counted s s'"
proof (induction n arbitrary: y x s s')
  case 0
  then show ?case by simp
next
  case (Suc n)
  let ?m = "mark s y x"
  note wf = Suc.prems(2) and v = Suc.prems(3)
  note cm = counted_mark[OF wf v]
  from Suc.prems(1) show ?case
  proof (cases rule: r_reveal_Suc_cases)
    case finished
    then show ?thesis by simp
  next
    case flagged
    then show ?thesis by simp
  next
    case (ended a b)
    then show ?thesis using counted_flags[OF cm] by simp
  next
    case stop
    then show ?thesis using cm by simp
  next
    case spread
    have y0: "- 127 \<le> sint y" and x0: "- 127 \<le> sint x" using v by (simp_all add: is_valid_def)
    let ?I = "\<lambda>b. grows ?m b \<and> counted ?m b"
    have "?I s'"
    proof (rule spread_rule[OF spread(4) y0 x0, where I = ?I])
      show "?I ?m" by simp
    next
      fix h w b b'
      assume Ib: "?I b" and stp: "step n y x h w b = Some b'"
      have wfb: "wf_i b" using wf_i_frame[OF grows_frame[of ?m b] wf_i_mark[OF wf]] Ib by simp
      show "?I b'"
      proof (cases "is_valid b h w \<and> \<not> (h = y \<and> w = x) \<and> geti b h w \<noteq> REVEAL")
        case False
        then show ?thesis using stp step_skip[OF False, of n] Ib by simp
      next
        case True
        then have rr: "r_reveal n h w b = Some b'" using stp step_call[OF True, of n] by simp
        have vh: "is_valid b h w" using True by simp
        have 1: "grows ?m b'" using Ib r_reveal_grows[OF rr wfb] grows_trans by blast
        have 2: "counted ?m b'" using Ib Suc.IH[OF rr wfb vh] counted_trans by blast
        show ?thesis using 1 2 ..
      qed
    qed
    then show ?thesis using cm counted_trans by blast
  qed
qed

lemma flood_complete:
  assumes fc: "fresh_closed s s' y0 x0" and r0: "geti s y0 x0 = FLAGGED \<or> geti s' y0 x0 = REVEAL"
    and g: "grows s s'"
  shows "flood s y0 x0 h w \<Longrightarrow> geti s' h w = REVEAL"
proof (induction rule: flood.induct)
  case start
  then show ?case using r0 by simp
next
  case (spread y x h w)
  note c = flood_cell[OF spread(1)]
  have "closed s' y x"
    using fc c spread(2) spread.IH unfolding fresh_closed_def by blast
  moreover have "is_valid s' h w" using spread(4) grows_is_valid[OF g] by simp
  ultimately have "geti s' h w = REVEAL \<or> geti s' h w = FLAGGED"
    using spread(3) unfolding closed_def by blast
  moreover have "geti s' h w \<noteq> FLAGGED"
  proof -
    have "geti s' h w = geti s h w \<or> geti s' h w = REVEAL"
      using g unfolding grows_def by blast
    then show ?thesis using spread(6) by (auto simp: cell_defs)
  qed
  ultimately show ?case by simp
qed

lemma ring_3x3_reveal: "reveal 14 (\<lambda>i. i) (0, ring_3x3) = Some (0, ring_3x3_filled)"
  by code_simp

section \<open>Every state of a game is well formed\<close>

lemma loops_exit_cong:
  "board s' = board s \<Longrightarrow> height s' = height s \<Longrightarrow> width s' = width s \<Longrightarrow>
   loops_exit s' = loops_exit s"
  by (simp add: loops_exit_def is_valid_def get_def cell_index_def)

lemma board_inv_frame:
  assumes "board_inv s" "board s' = board s" "height s' = height s" "width s' = width s"
    "length (input_board s') = length (input_board s)"
    "is_valid s (curY s') (curX s')"
  shows "board_inv s'"
proof -
  have 1: "counts_ok s'" using assms(1) counts_ok_cong[OF assms(2-4)] by (simp add: board_inv_def)
  have 2: "wf_i s'" using assms by (simp add: board_inv_def wf_i_def)
  have 3: "loops_exit s'" using assms(1) loops_exit_cong[OF assms(2-4)] by (simp add: board_inv_def)
  have 4: "is_valid s' (curY s') (curX s')" using assms(3,4,6) by (simp add: is_valid_def)
  show ?thesis unfolding board_inv_def using 1 2 3 4 by simp
qed

lemma board_inv_move_cur: "board_inv s \<Longrightarrow> board_inv (move_cur dy dx s)"
proof -
  assume a: "board_inv s"
  then have v: "is_valid s (curY s) (curX s)" by (simp add: board_inv_def)
  have "is_valid s (curY (move_cur dy dx s)) (curX (move_cur dy dx s))"
    using move_cur_valid[OF v, of dy dx] by (simp add: move_cur_def Let_def is_valid_def split: if_splits)
  then show ?thesis
    by (intro board_inv_frame[OF a]) (simp_all add: move_cur_def Let_def)
qed

lemma board_inv_flag: "board_inv s \<Longrightarrow> board_inv (flag s)"
proof -
  assume a: "board_inv s"
  show ?thesis
    by (rule board_inv_frame[OF a]) (use a in \<open>simp_all add: flag_def board_inv_def\<close>)
qed

lemma board_inv_quit: "board_inv s \<Longrightarrow> board_inv (quit s)"
proof -
  assume a: "board_inv s"
  show ?thesis
    by (rule board_inv_frame[OF a]) (use a in \<open>simp_all add: quit_def board_inv_def\<close>)
qed

lemma board_inv_init:
  assumes "init n rng (p, s) = Some (p', s')" "1 \<le> sint (height s)" "1 \<le> sint (width s)"
    "is_valid s (curY s) (curX s)"
  shows "board_inv s'"
  using init_Some[OF assms(1)] assms(4) by (simp add: board_inv_def is_valid_def)

lemma board_inv_first_reveal_loop:
  assumes "first_reveal_loop n rng (p, s) = Some (p', s')" "board_inv s"
  shows "board_inv s'"
  using assms
proof (induction n arbitrary: p s)
  case 0
  then show ?case by simp
next
  case (Suc n)
  show ?case
  proof (cases "revealCount s = 0 \<and> get s (curY s) (curX s) = MINE")
    case False
    then have "s' = s" using Suc.prems(1) by auto
    then show ?thesis using Suc.prems(2) by simp
  next
    case True
    then obtain p2 s2 where i: "init n rng (p, s) = Some (p2, s2)"
      and l: "first_reveal_loop n rng (p2, s2) = Some (p', s')"
      using Suc.prems(1) by (auto split: option.splits)
    have v: "is_valid s (curY s) (curX s)" using Suc.prems(2) by (simp add: board_inv_def)
    then have "1 \<le> sint (height s)" "1 \<le> sint (width s)" by (simp_all add: is_valid_def)
    from board_inv_init[OF i this v] have "board_inv s2" .
    from Suc.IH[OF l this] show ?thesis .
  qed
qed

lemma board_inv_reveal:
  assumes "reveal n rng (p, s) = Some (p', s')" "board_inv s"
  shows "board_inv s'"
proof -
  from assms(1) obtain p1 s1 where l: "first_reveal_loop n rng (p, s) = Some (p1, s1)"
    and r: "r_reveal n (curY s1) (curX s1) s1 = Some s'"
    unfolding reveal_def by (auto split: option.splits)
  have a: "board_inv s1" by (rule board_inv_first_reveal_loop[OF l assms(2)])
  have f: "r_frame s1 s'" using r_reveal_safe[OF r] by simp
  show ?thesis
    by (rule board_inv_frame[OF a]) (use a f in \<open>simp_all add: r_frame_def board_inv_def\<close>)
qed

lemma reachable_board_inv: "reachable rng ps \<Longrightarrow> board_inv (snd ps)"
proof (induction rule: reachable.induct)
  case (built h w n p m ps)
  obtain p' s' where ps: "ps = (p', s')" by (cases ps)
  let ?s0 = "\<lparr>curY = 0, curX = 0, done_flag = False, win = False, lose = False,
                     revealCount = 0, flagCount = 0, height = h, width = w, mines = m,
                     board = [], input_board = []\<rparr>"
  have i: "init n rng (p, ?s0) = Some (p', s')" using built(3) unfolding ps SBoard_new_def .
  have "board_inv s'"
    by (rule board_inv_init[OF i]) (use built(1,2) in \<open>simp_all add: is_valid_def\<close>)
  then show ?case unfolding ps by simp
next
  case (key ps n k ps')
  obtain p s where ps: "ps = (p, s)" by (cases ps)
  obtain p' s' where ps': "ps' = (p', s')" by (cases ps')
  have a: "board_inv s" using key.IH ps by simp
  show ?case using key(3) a unfolding ps ps'
    by (cases k) (auto simp: board_inv_move_cur board_inv_flag board_inv_quit intro: board_inv_reveal)
qed

section \<open>The flood fill returns and visits a cell once\<close>

lemma step_visits_skip:
  "\<not> (is_valid s h w \<and> \<not> (h = y \<and> w = x) \<and> geti s h w \<noteq> REVEAL) \<Longrightarrow>
   step_visits n y x h w (s, l) = Some (s, l)"
  unfolding step_visits_def fst_conv by (rule if_not_P)

lemma step_visits_call:
  "is_valid s h w \<and> \<not> (h = y \<and> w = x) \<and> geti s h w \<noteq> REVEAL \<Longrightarrow>
   step_visits n y x h w (s, l) = r_reveal_visits n h w (s, l)"
  unfolding step_visits_def fst_conv by (rule if_P)

lemma r_reveal_visits_Suc:
  "r_reveal_visits (Suc n) y x (s, l) =
     (if is_done s then Some (s, l)
      else if geti s y x = FLAGGED then Some (s, l)
      else if get (mark s y x) y x = MINE
      then Some ((mark s y x)\<lparr>win := False, lose := True, done_flag := True\<rparr>, (y, x) # l)
      else if sint (revealCount (mark s y x)) \<ge> sint (max_reveal (mark s y x))
      then Some ((mark s y x)\<lparr>win := True, lose := False, done_flag := True\<rparr>, (y, x) # l)
      else if get (mark s y x) y x = 48 then spread_visits n y x (mark s y x, (y, x) # l)
      else Some (mark s y x, (y, x) # l))"
  by (simp add: mark_def spread_visits_def step_visits_def Let_def)

lemma r_reveal_visits_fst: "map_option fst (r_reveal_visits n y x (s, l)) = r_reveal n y x s"
proof (induction n arbitrary: y x s l)
  case 0
  then show ?case by simp
next
  case (Suc n)
  have st: "map_option fst (step_visits n y x h w (a, k)) = step n y x h w a" for h w a k
  proof (cases "is_valid a h w \<and> \<not> (h = y \<and> w = x) \<and> geti a h w \<noteq> REVEAL")
    case True
    then have "step_visits n y x h w (a, k) = r_reveal_visits n h w (a, k)"
      by (rule step_visits_call)
    then show ?thesis using step_call[OF True, of n] Suc.IH[of h w a k] by simp
  next
    case False
    then have "step_visits n y x h w (a, k) = Some (a, k)"
      by (rule step_visits_skip)
    then show ?thesis using step_skip[OF False, of n] by simp
  qed
  have row: "map_option fst (for_le n (word_of_int (sint x - 1)) (sint x + 1) (\<lambda>w sl. step_visits n y x h w sl) (a, k))
      = for_le n (word_of_int (sint x - 1)) (sint x + 1) (\<lambda>w s. step n y x h w s) a" for h a k
    by (rule for_le_sim) (rule st)
  have sp: "map_option fst (spread_visits n y x (a, k)) = spread n y x a" for a k
    unfolding spread_visits_def spread_def by (rule for_le_sim) (rule row)
  show ?case unfolding r_reveal_visits_Suc r_reveal_Suc using sp by simp
qed

lemma fresh_visits_Nil [simp]: "fresh_visits s s' []"
  by (simp add: fresh_visits_def)

lemma fresh_visits_append:
  assumes g1: "grows b b1" and g2: "grows b1 b'"
    and v1: "fresh_visits b b1 l1" and v2: "fresh_visits b1 b' l2"
  shows "fresh_visits b b' (l2 @ l1)"
proof -
  have d: "distinct l1" "distinct l2" using v1 v2 by (simp_all add: fresh_visits_def)
  have p1: "is_valid b h w \<and> geti b h w \<noteq> REVEAL \<and> geti b1 h w = REVEAL" if "(h, w) \<in> set l1" for h w
    using v1 that unfolding fresh_visits_def by blast
  have p2: "is_valid b1 h w \<and> geti b1 h w \<noteq> REVEAL \<and> geti b' h w = REVEAL" if "(h, w) \<in> set l2" for h w
    using v2 that unfolding fresh_visits_def by blast
  have disj: "set l2 \<inter> set l1 = {}"
  proof (rule ccontr)
    assume "set l2 \<inter> set l1 \<noteq> {}"
    then obtain c where c: "c \<in> set l2" "c \<in> set l1" by blast
    obtain h w where hw: "c = (h, w)" by (cases c)
    from p1[of h w] p2[of h w] c show False unfolding hw by simp
  qed
  have all: "is_valid b h w \<and> geti b h w \<noteq> REVEAL \<and> geti b' h w = REVEAL"
    if "(h, w) \<in> set (l2 @ l1)" for h w
  proof (cases "(h, w) \<in> set l1")
    case True
    from p1[OF True] grows_revealed[OF g2, of h w] show ?thesis by simp
  next
    case False
    then have m: "(h, w) \<in> set l2" using that by simp
    have "geti b h w \<noteq> REVEAL" using p2[OF m] grows_revealed[OF g1, of h w] by blast
    then show ?thesis using p2[OF m] grows_is_valid[OF g1, of h w] by simp
  qed
  show ?thesis unfolding fresh_visits_def using d disj all by auto
qed

lemma seq_visits_total:
  assumes wm: "wf_i m"
    and stepP: "\<And>h w b lb. grows m b \<Longrightarrow> hidden b \<le> hidden m \<Longrightarrow>
      \<exists>b' l'. f h w (b, lb) = Some (b', l' @ lb) \<and> grows b b' \<and> hidden b' \<le> hidden b \<and>
        fresh_visits b b' l'"
  shows "grows m b \<Longrightarrow> hidden b \<le> hidden m \<Longrightarrow>
      \<exists>b' l'. seq_cells f cs (b, lb) = Some (b', l' @ lb) \<and> grows b b' \<and> hidden b' \<le> hidden b \<and>
        fresh_visits b b' l'"
proof (induction cs arbitrary: b lb)
  case Nil
  show ?case by (intro exI[of _ b] exI[of _ "[]"]) simp
next
  case (Cons c cs)
  obtain h w where c: "c = (h, w)" by (cases c)
  from stepP[OF Cons.prems, of h w lb] obtain b1 l1 where
    1: "f h w (b, lb) = Some (b1, l1 @ lb)" "grows b b1" "hidden b1 \<le> hidden b"
      "fresh_visits b b1 l1"
    by blast
  have g: "grows m b1" using Cons.prems(1) 1(2) by (rule grows_trans)
  have hb: "hidden b1 \<le> hidden m" using 1(3) Cons.prems(2) by simp
  from Cons.IH[OF g hb, of "l1 @ lb"] obtain b' l2 where
    2: "seq_cells f cs (b1, l1 @ lb) = Some (b', l2 @ l1 @ lb)" "grows b1 b'"
      "hidden b' \<le> hidden b1" "fresh_visits b1 b' l2"
    by blast
  have s: "seq_cells f (c # cs) (b, lb) = Some (b', (l2 @ l1) @ lb)"
    unfolding c using 1(1) 2(1) by simp
  have g': "grows b b'" using 1(2) 2(2) by (rule grows_trans)
  have fv: "fresh_visits b b' (l2 @ l1)" by (rule fresh_visits_append[OF 1(2) 2(2) 1(4) 2(4)])
  have hl: "hidden b' \<le> hidden b" using 1(3) 2(3) by simp
  show ?case using s g' hl fv by (intro exI[of _ b'] exI[of _ "l2 @ l1"]) simp
qed

lemma r_reveal_visits_total:
  assumes "wf_i s" "loops_exit s" "is_valid s y x"
    and "hidden s + (if geti s y x = REVEAL then 5 else 4) \<le> n"
  shows "\<exists>s' l'. r_reveal_visits n y x (s, l) = Some (s', l' @ l) \<and> grows s s' \<and>
      hidden s' \<le> hidden s \<and> distinct l' \<and>
      (\<forall>(h, w) \<in> set l'. is_valid s h w \<and> geti s' h w = REVEAL \<and>
         (geti s h w \<noteq> REVEAL \<or> (h = y \<and> w = x)))"
  using assms
proof (induction n arbitrary: y x s l)
  case 0
  then show ?case by (simp split: if_splits)
next
  case (Suc n)
  let ?m = "mark s y x"
  let ?l = "(y, x) # l"
  note wf = Suc.prems(1) and le = Suc.prems(2) and v = Suc.prems(3)
  have wm: "wf_i ?m" using wf by (rule wf_i_mark)
  have hm: "hidden ?m \<le> hidden s" using hidden_mark[OF wf, of y x] by (simp split: if_splits)
  have rm: "geti ?m y x = REVEAL" using v by (simp add: geti_mark[OF wf])
  have simple: "\<exists>s' l'. Some (t, ?l) = Some (s', l' @ l) \<and> grows s s' \<and>
      hidden s' \<le> hidden s \<and> distinct l' \<and>
      (\<forall>(h, w) \<in> set l'. is_valid s h w \<and> geti s' h w = REVEAL \<and>
         (geti s h w \<noteq> REVEAL \<or> (h = y \<and> w = x)))"
    if "grows s t" "hidden t \<le> hidden s" "geti t y x = REVEAL" for t
    using that v by (intro exI[of _ t] exI[of _ "[(y, x)]"]) simp
  have "r_reveal_visits (Suc n) y x (s, l) = Some (s, l) \<or>
      (geti s y x \<noteq> FLAGGED \<and>
        (r_reveal_visits (Suc n) y x (s, l) = Some (?m\<lparr>win := False, lose := True, done_flag := True\<rparr>, ?l) \<or>
         r_reveal_visits (Suc n) y x (s, l) = Some (?m\<lparr>win := True, lose := False, done_flag := True\<rparr>, ?l) \<or>
         r_reveal_visits (Suc n) y x (s, l) = Some (?m, ?l) \<or>
         (get s y x = 48 \<and> r_reveal_visits (Suc n) y x (s, l) = spread_visits n y x (?m, ?l))))"
    unfolding r_reveal_visits_Suc by simp
  then consider (same) "r_reveal_visits (Suc n) y x (s, l) = Some (s, l)"
    | (ended) a b where "geti s y x \<noteq> FLAGGED"
        "r_reveal_visits (Suc n) y x (s, l) = Some (?m\<lparr>win := a, lose := b, done_flag := True\<rparr>, ?l)"
    | (stop) "geti s y x \<noteq> FLAGGED" "r_reveal_visits (Suc n) y x (s, l) = Some (?m, ?l)"
    | (spread) "geti s y x \<noteq> FLAGGED" "get s y x = 48"
        "r_reveal_visits (Suc n) y x (s, l) = spread_visits n y x (?m, ?l)"
    by blast
  then show ?case
  proof cases
    case same
    show ?thesis unfolding same by (intro exI[of _ s] exI[of _ "[]"]) simp
  next
    case ended
    note gm = grows_mark[OF wf ended(1)]
    have h: "hidden (?m\<lparr>win := a, lose := b, done_flag := True\<rparr>) \<le> hidden s"
      using hm by (simp add: hidden_def)
    have r: "geti (?m\<lparr>win := a, lose := b, done_flag := True\<rparr>) y x = REVEAL"
      using rm by simp
    show ?thesis unfolding ended(2) by (rule simple[OF grows_flags[OF gm] h r])
  next
    case stop
    show ?thesis unfolding stop(2) by (rule simple[OF grows_mark[OF wf stop(1)] hm rm])
  next
    case spread
    note gm = grows_mark[OF wf spread(1)]
    have y0: "- 127 \<le> sint y" and x0: "- 127 \<le> sint x" using v by (simp_all add: is_valid_def)
    have yx: "sint y < 126" "sint x < 126" using le v spread(2) unfolding loops_exit_def by blast+
    have hid: "hidden ?m = (if geti s y x = REVEAL then hidden s else hidden s - 1)"
      using hidden_mark[OF wf, of y x] v by simp
    have pos: "geti s y x \<noteq> REVEAL \<Longrightarrow> 1 \<le> hidden s"
    proof -
      assume a: "geti s y x \<noteq> REVEAL"
      have i: "cell_index s y x < length (input_board s)"
        using cell_index_less[OF v] wf by (simp add: wf_i_def)
      have "input_board s ! cell_index s y x \<noteq> REVEAL" using a v by (simp add: geti_def)
      then have "input_board s ! cell_index s y x \<in> set (filter (\<lambda>v. v \<noteq> REVEAL) (input_board s))"
        using i by simp
      then have "filter (\<lambda>v. v \<noteq> REVEAL) (input_board s) \<noteq> []"
        by (metis empty_iff list.set(1))
      then show ?thesis unfolding hidden_def by (simp add: Suc_le_eq)
    qed
    have fuel: "hidden ?m + 4 \<le> n" using Suc.prems(4) hid pos by (auto split: if_splits)
    then have "4 \<le> n" by simp
    then obtain k where "n = 4 + k" using le_Suc_ex by blast
    then have n: "n = Suc (Suc (Suc (Suc k)))" by (simp add: eval_nat_numeral)
    have lm: "loops_exit ?m" using le r_frame_loops_exit[OF mark_frame, of s y x] by simp
    have eq: "spread_visits n y x (?m, ?l) = seq_cells (step_visits n y x) (nbrs y x) (?m, ?l)"
      unfolding spread_visits_def n by (rule for_le_nest_eq[OF y0 yx(1) x0 yx(2)])
    have stepP: "\<exists>b' l'. step_visits n y x h w (b, lb) = Some (b', l' @ lb) \<and> grows b b' \<and>
        hidden b' \<le> hidden b \<and> fresh_visits b b' l'"
      if b: "grows ?m b" "hidden b \<le> hidden ?m" for h w b lb
    proof (cases "is_valid b h w \<and> \<not> (h = y \<and> w = x) \<and> geti b h w \<noteq> REVEAL")
      case False
      show ?thesis unfolding step_visits_skip[OF False]
        by (intro exI[of _ b] exI[of _ "[]"]) simp
    next
      case True
      have wb: "wf_i b" using wf_i_frame[OF grows_frame[OF b(1)] wm] .
      have lb: "loops_exit b" using lm r_frame_loops_exit[OF grows_frame[OF b(1)]] by simp
      have vb: "is_valid b h w" using True by simp
      have fb: "hidden b + (if geti b h w = REVEAL then 5 else 4) \<le> n"
        using True b(2) fuel by simp
      from Suc.IH[OF wb lb vb fb, of lb] obtain b' l' where
        r: "r_reveal_visits n h w (b, lb) = Some (b', l' @ lb)" "grows b b'"
          "hidden b' \<le> hidden b" "distinct l'"
          "\<forall>(c, d) \<in> set l'. is_valid b c d \<and> geti b' c d = REVEAL \<and>
             (geti b c d \<noteq> REVEAL \<or> (c = h \<and> d = w))"
        by blast
      have "fresh_visits b b' l'"
        unfolding fresh_visits_def using r(4,5) True by auto
      then show ?thesis unfolding step_visits_call[OF True] using r(1-3) by blast
    qed
    from seq_visits_total[of ?m "step_visits n y x" ?m "nbrs y x" ?l, OF wm stepP grows_refl order_refl]
    obtain s' l2 where
      r: "seq_cells (step_visits n y x) (nbrs y x) (?m, ?l) = Some (s', l2 @ ?l)"
      "grows ?m s'" "hidden s' \<le> hidden ?m" "fresh_visits ?m s' l2"
      by blast
    have res: "r_reveal_visits (Suc n) y x (s, l) = Some (s', (l2 @ [(y, x)]) @ l)"
      unfolding spread(3) eq r(1) by simp
    have g: "grows s s'" using gm r(2) by (rule grows_trans)
    have p2: "is_valid ?m h w \<and> geti ?m h w \<noteq> REVEAL \<and> geti s' h w = REVEAL"
      if "(h, w) \<in> set l2" for h w
      using r(4) that unfolding fresh_visits_def by blast
    have notin: "(y, x) \<notin> set l2" using p2[of y x] rm by blast
    have dist: "distinct (l2 @ [(y, x)])" using r(4) notin by (simp add: fresh_visits_def)
    have root: "geti s' y x = REVEAL" by (rule grows_revealed[OF r(2) rm])
    have all: "is_valid s h w \<and> geti s' h w = REVEAL \<and> (geti s h w \<noteq> REVEAL \<or> (h = y \<and> w = x))"
      if "(h, w) \<in> set (l2 @ [(y, x)])" for h w
    proof (cases "(h, w) = (y, x)")
      case True
      then show ?thesis using v root by simp
    next
      case False
      then have m: "(h, w) \<in> set l2" using that by auto
      from p2[OF m] have "geti s h w \<noteq> REVEAL"
        by (auto simp: geti_mark[OF wf] split: if_splits)
      then show ?thesis using p2[OF m] grows_is_valid[OF gm, of h w] by simp
    qed
    have hl: "hidden s' \<le> hidden s" using r(3) hm by simp
    have allq: "\<forall>(h, w) \<in> set (l2 @ [(y, x)]). is_valid s h w \<and> geti s' h w = REVEAL \<and>
        (geti s h w \<noteq> REVEAL \<or> (h = y \<and> w = x))"
      using all by blast
    from res g hl dist allq show ?thesis by blast
  qed
qed

lemma visits_length:
  assumes "distinct l" and "\<And>h w. (h, w) \<in> set l \<Longrightarrow> is_valid s h w"
  shows "length l \<le> nat (sint (height s) * sint (width s))"
proof -
  let ?f = "\<lambda>c. cell_index s (fst c) (snd c)"
  let ?N = "nat (sint (width s) * sint (height s))"
  have inj: "inj_on ?f (set l)"
  proof (rule inj_onI)
    fix c d assume c: "c \<in> set l" and d: "d \<in> set l" and e: "?f c = ?f d"
    have "is_valid s (fst c) (snd c)" "is_valid s (fst d) (snd d)"
      using assms(2)[of "fst c" "snd c"] assms(2)[of "fst d" "snd d"] c d by simp_all
    from cell_index_inj[OF this e] show "c = d" by (simp add: prod_eq_iff)
  qed
  have sub: "?f ` set l \<subseteq> {..<?N}"
  proof
    fix i assume "i \<in> ?f ` set l"
    then obtain c where c: "c \<in> set l" "i = ?f c" by blast
    have "is_valid s (fst c) (snd c)" using assms(2)[of "fst c" "snd c"] c(1) by simp
    from cell_index_less[OF this] c(2) show "i \<in> {..<?N}" by simp
  qed
  have "length l = card (set l)" using assms(1) by (simp add: distinct_card)
  also have "\<dots> = card (?f ` set l)" using inj by (simp add: card_image)
  also have "\<dots> \<le> card {..<?N}" by (rule card_mono[OF _ sub]) simp
  finally show ?thesis by (simp add: mult.commute)
qed

section \<open>Initialisation returns\<close>

lemma random_cell:
  assumes "1 \<le> e" "e \<le> 127" "random rng q 0 e = (y, q')"
  shows "q' = Suc q \<and> 0 \<le> sint y \<and> sint y < e"
proof -
  let ?r = "int (rng q) mod e"
  have r: "0 \<le> ?r" "?r < e" using assms(1) by simp_all
  then have le: "?r \<le> 126" using assms(2) by linarith
  have s: "sint (word_of_int ?r :: TCell) = ?r"
    using r(1) le by (intro sint_of_int_TCell) linarith+
  have "random rng q 0 e = (word_of_int ?r, Suc q)"
    unfolding random_def using assms(1) le by (simp add: Let_def cell_defs)
  then show ?thesis using assms(3) r s by auto
qed

lemma draw_valid:
  assumes "1 \<le> sint (height s)" "1 \<le> sint (width s)"
  shows "is_valid s (fst (draw rng p (height s) (width s) k)) (snd (draw rng p (height s) (width s) k))"
proof -
  obtain y q1 where r1: "random rng (p + 2 * k) 0 (sint (height s)) = (y, q1)"
    by (cases "random rng (p + 2 * k) 0 (sint (height s))")
  obtain x q2 where r2: "random rng (p + 2 * k + 1) 0 (sint (width s)) = (x, q2)"
    by (cases "random rng (p + 2 * k + 1) 0 (sint (width s))")
  note c1 = random_cell[OF assms(1) sint_TCell_le r1]
  note c2 = random_cell[OF assms(2) sint_TCell_le r2]
  show ?thesis unfolding draw_def r1 r2 using c1 c2 by (simp add: is_valid_def)
qed

lemma add_mines_round:
  assumes "1 \<le> sint (height s)" "1 \<le> sint (width s)"
    and "sint minesAdded < sint (mines s)"
    and "draw rng p (height s) (width s) j = (y, x)"
  shows "add_mines (Suc n) rng (p + 2 * j) minesAdded s =
     (if get s y x = 0
      then add_mines n rng (p + 2 * Suc j) (minesAdded + 1) (set_cell s y x MINE)
      else add_mines n rng (p + 2 * Suc j) minesAdded s)"
proof -
  obtain y' q1 where r1: "random rng (p + 2 * j) 0 (sint (height s)) = (y', q1)"
    by (cases "random rng (p + 2 * j) 0 (sint (height s))")
  have q1: "q1 = Suc (p + 2 * j)"
    using random_cell[OF assms(1) sint_TCell_le r1] by simp
  obtain x' q2 where r2: "random rng (Suc (p + 2 * j)) 0 (sint (width s)) = (x', q2)"
    by (cases "random rng (Suc (p + 2 * j)) 0 (sint (width s))")
  have q2: "q2 = Suc (Suc (p + 2 * j))"
    using random_cell[OF assms(2) sint_TCell_le r2] by simp
  have yx: "y' = y" "x' = x" using assms(4) r1 r2 unfolding draw_def by simp_all
  show ?thesis
    using assms(3) r1 r2 unfolding q1 q2 yx by simp
qed

lemma placed_step:
  assumes hw: "1 \<le> sint (height s)" "1 \<le> sint (width s)"
    and pl: "placed rng p s j minesAdded"
    and lt: "sint minesAdded < sint (mines s)"
    and d: "draw rng p (height s) (width s) j = (y, x)"
  shows "if get s y x = 0
         then placed rng p (set_cell s y x MINE) (Suc j) (minesAdded + 1)
         else placed rng p s (Suc j) minesAdded"
proof -
  note P = pl[unfolded placed_def]
  let ?D = "\<lambda>j. draw rng p (height s) (width s) ` {..<j}"
  have v: "is_valid s y x" using draw_valid[OF hw, of rng p j] unfolding d by simp
  have Dj: "?D (Suc j) = insert (y, x) (?D j)"
    unfolding lessThan_Suc using d by simp
  have len: "length (board s) = nat (sint (width s) * sint (height s))" using P by simp
  have idx: "cell_index s y x < length (board s)" using cell_index_less[OF v] len by simp
  show ?thesis
  proof (cases "get s y x = 0")
    case False
    have "board s ! cell_index s y x = MINE"
      using P idx False v by (auto simp: get_def)
    then have "(y, x) \<in> ?D j" using P v by (simp add: get_def)
    then have same: "?D (Suc j) = ?D j" unfolding Dj by auto
    have "placed rng p s (Suc j) minesAdded"
      using pl unfolding placed_def same .
    then show ?thesis using False by simp
  next
    case True
    let ?s' = "set_cell s y x MINE"
    have nm: "get s y x \<noteq> MINE" using True by (simp add: cell_defs)
    then have new: "(y, x) \<notin> ?D j" using P v by blast
    have b': "board ?s' = (board s)[cell_index s y x := MINE]"
      using v by (simp add: set_cell_def)
    have cells: "\<forall>i < length (board ?s'). board ?s' ! i = 0 \<or> board ?s' ! i = MINE"
    proof (intro allI impI)
      fix i assume "i < length (board ?s')"
      then have i: "i < length (board s)" by simp
      show "board ?s' ! i = 0 \<or> board ?s' ! i = MINE"
        unfolding b' using P i by (cases "i = cell_index s y x") simp_all
    qed
    have gets: "get ?s' h w = MINE \<longleftrightarrow> (h, w) \<in> ?D (Suc j)" if "is_valid s h w" for h w
      unfolding Dj get_set_cell[OF len] using P that v by auto
    have m127: "sint (mines s) \<le> 127" by (rule sint_TCell_le)
    have "sint (minesAdded + 1) = sint minesAdded + 1"
      using lt m127 by (intro sint_inc) linarith
    also have "\<dots> = int (card (?D (Suc j)))"
      unfolding Dj using P new by simp
    finally have cnt: "sint (minesAdded + 1) = int (card (?D (Suc j)))" .
    have "placed rng p ?s' (Suc j) (minesAdded + 1)"
      unfolding placed_def using len cells gets cnt by simp
    then show ?thesis using True by simp
  qed
qed


lemma add_mines_Some_drawn:
  assumes "1 \<le> sint (height s)" "1 \<le> sint (width s)"
    and "placed rng p s j minesAdded"
    and "add_mines n rng (p + 2 * j) minesAdded s = Some (p', s')"
  shows "\<exists>k. nat (sint (mines s)) \<le> card (draw rng p (height s) (width s) ` {..<k})"
  using assms
proof (induction n arbitrary: j minesAdded s)
  case 0
  then show ?case by simp
next
  case (Suc n)
  note hw = Suc.prems(1,2)
  note pl = Suc.prems(3)[unfolded placed_def]
  show ?case
  proof (cases "sint minesAdded < sint (mines s)")
    case False
    then have "nat (sint (mines s)) \<le> card (draw rng p (height s) (width s) ` {..<j})"
      using pl by linarith
    then show ?thesis by blast
  next
    case lt: True
    obtain y x where d: "draw rng p (height s) (width s) j = (y, x)"
      by (cases "draw rng p (height s) (width s) j")
    note step = add_mines_round[OF hw lt d, of n]
    note nx = placed_step[OF hw Suc.prems(3) lt d]
    show ?thesis
    proof (cases "get s y x = 0")
      case False
      then have pl': "placed rng p s (Suc j) minesAdded" using nx by simp
      have r: "add_mines n rng (p + 2 * Suc j) minesAdded s = Some (p', s')"
        using Suc.prems(4) unfolding step using False by simp
      from Suc.IH[OF hw pl' r] show ?thesis .
    next
      case True
      let ?s' = "set_cell s y x MINE"
      have pl': "placed rng p ?s' (Suc j) (minesAdded + 1)" using nx True by simp
      have hw': "1 \<le> sint (height ?s')" "1 \<le> sint (width ?s')" using hw by simp_all
      have r: "add_mines n rng (p + 2 * Suc j) (minesAdded + 1) ?s' = Some (p', s')"
        using Suc.prems(4) unfolding step using True by simp
      from Suc.IH[OF hw' pl' r] show ?thesis by simp
    qed
  qed
qed





lemma init_Some_drawn:
  assumes r: "init n rng (p, s) = Some (p', s')"
    and hw: "1 \<le> sint (height s)" "1 \<le> sint (width s)"
  shows "\<exists>k. nat (sint (mines s)) \<le> length (drawn rng p (height s) (width s) k)"
proof -
  let ?cells = "nat (sint (width s) * sint (height s))"
  let ?s = "s\<lparr>done_flag := False, win := False, lose := False,
                revealCount := 0, flagCount := 0,
                board := replicate ?cells 0, input_board := replicate ?cells 0\<rparr>"
  from r obtain s1 where a: "add_mines n rng (p + 2 * 0) 0 ?s = Some (p', s1)"
    unfolding init_def by (auto simp: Let_def split: option.splits if_splits)
  have g0: "get ?s y x = 0" if "is_valid ?s y x" for y x
  proof -
    have "cell_index ?s y x < ?cells" using cell_index_less[OF that] by simp
    then show ?thesis using that by (simp add: get_def)
  qed
  have pl: "placed rng p ?s 0 0"
    unfolding placed_def using g0 by (auto simp: cell_defs)
  have hw': "1 \<le> sint (height ?s)" "1 \<le> sint (width ?s)" using hw by simp_all
  from add_mines_Some_drawn[OF hw' pl a] obtain k where
    "nat (sint (mines s)) \<le> card (draw rng p (height s) (width s) ` {..<k})" by auto
  moreover have "length (drawn rng p (height s) (width s) k) =
      card (draw rng p (height s) (width s) ` {..<k})"
    unfolding drawn_def length_remdups_card_conv by (simp add: lessThan_atLeast0)
  ultimately show ?thesis by metis
qed




section \<open>The claims of the specification\<close>

text \<open>
  C1. If \<^verbatim>\<open>reveal()\<close> is called while revealCount is 0 on a board that is not
  lost and whose stored counts are right (\<open>counts_ok\<close>, which \<^verbatim>\<open>init\<close> establishes),
  then whenever it returns the outcome is not Lost: the loop builds the board anew
  as long as the cursor cell is a mine, the cell revealed in the end is not a
  mine, and the fill only moves on from cells whose count is 0, which have no
  mine next to them. The cursor is not moved.
\<close>

theorem first_reveal_never_lost:
  assumes "revealCount s = 0" "\<not> lose s" "counts_ok s"
    and "reveal n rng (p, s) = Some (p', s')"
  shows "\<not> lose s' \<and> get s' (curY s') (curX s') \<noteq> MINE \<and> curY s' = curY s \<and> curX s' = curX s"
proof -
  from assms(4) obtain p1 s1 where l: "first_reveal_loop n rng (p, s) = Some (p1, s1)"
    and r: "r_reveal n (curY s1) (curX s1) s1 = Some s'"
    unfolding reveal_def by (auto split: option.splits)
  note L = first_reveal_loop_Some[OF l assms(1-3)]
  note R = r_reveal_safe[OF r]
  have "\<not> lose s'" using L R by auto
  moreover have "get s' (curY s') (curX s') = get s1 (curY s1) (curX s1)"
    using R r_frame_get[of s1 s'] by (simp add: r_frame_def)
  moreover have "curY s' = curY s" "curX s' = curX s" using R L by (simp_all add: r_frame_def)
  ultimately show ?thesis using L by auto
qed

theorem first_reveal_never_lost_witness:
  "revealCount (fresh_3x3\<lparr>curX := 1\<rparr>) = 0 \<and>
   get (fresh_3x3\<lparr>curX := 1\<rparr>) 0 1 = MINE \<and>
   reveal 30 (\<lambda>i. i) (4, fresh_3x3\<lparr>curX := 1\<rparr>) = Some (12, first_3x3) \<and>
   \<not> lose first_3x3 \<and> get first_3x3 0 1 = 49"
proof -
  have a: "revealCount (fresh_3x3\<lparr>curX := 1\<rparr>) = 0" "\<not> lose (fresh_3x3\<lparr>curX := 1\<rparr>)"
    by (simp_all add: fresh_3x3_def)
  have c: "counts_ok (fresh_3x3\<lparr>curX := 1\<rparr>)"
    using counts_ok_fresh_3x3 counts_ok_cong[of "fresh_3x3\<lparr>curX := 1\<rparr>" fresh_3x3] by simp
  have m: "get (fresh_3x3\<lparr>curX := 1\<rparr>) 0 1 = MINE" "get first_3x3 0 1 = 49"
    by (simp_all add: fresh_3x3_def first_3x3_def get_def is_valid_def cell_index_def cell_defs)
  from first_reveal_never_lost[OF a c reveal_3x3_on_mine] a m reveal_3x3_on_mine
  show ?thesis by simp
qed




text \<open>
  C3. The claim is that \<^verbatim>\<open>reveal()\<close> on a zero-count cell reveals exactly the
  connected region of zero-count cells and its border, flagged cells apart.
  What holds on every well-formed board: the mine layer and every cell that is
  not revealed by the call stay as they are, so a FLAGGED cell stays FLAGGED; a
  cell is REVEALED afterwards only if it was before or belongs to \<open>flood\<close>, the
  cells reached from the cursor through zero-count cells that were neither
  REVEALED nor FLAGGED before the call; revealCount goes up by the number of
  cells revealed; and if the game is still undecided afterwards, every cell of
  \<open>flood\<close> is REVEALED. The fill does not go on through a zero-count cell that was
  REVEALED before the call, and it stops where it is when the game is decided.
\<close>

theorem flood_fill_region:
  assumes "wf_i s" and "get s (curY s) (curX s) = 48"
    and "reveal n rng (p, s) = Some (p', s')"
  shows "board s' = board s \<and>
         (\<forall>h w. geti s' h w \<noteq> REVEAL \<longrightarrow> geti s' h w = geti s h w) \<and>
         (\<forall>h w. geti s h w = FLAGGED \<longrightarrow> geti s' h w = FLAGGED) \<and>
         (\<forall>h w. is_valid s h w \<longrightarrow> geti s' h w = REVEAL \<longrightarrow>
                geti s h w = REVEAL \<or> flood s (curY s) (curX s) h w) \<and>
         hidden s' \<le> hidden s \<and> revealCount s' = revealCount s + of_nat (hidden s - hidden s') \<and>
         (\<not> is_done s' \<longrightarrow>
            (\<forall>h w. is_valid s h w \<longrightarrow>
               (geti s' h w = REVEAL \<longleftrightarrow> geti s h w = REVEAL \<or> flood s (curY s) (curX s) h w)))"
proof -
  let ?y = "curY s" and ?x = "curX s"
  have v: "is_valid s ?y ?x" using assms(2) by (intro get_valid) (simp add: cell_defs)
  have nm: "get s ?y ?x \<noteq> MINE" using assms(2) by (simp add: cell_defs)
  obtain k where n: "n = Suc k" using assms(3) by (cases n) (simp_all add: reveal_def)
  have l: "first_reveal_loop n rng (p, s) = Some (p, s)" unfolding n using nm by simp
  have r: "r_reveal n ?y ?x s = Some s'"
    using assms(3) unfolding reveal_def l by auto
  note g = r_reveal_grows[OF r assms(1)]
  note snd = r_reveal_sound[OF r assms(1) v]
  note cl = r_reveal_closed[OF r assms(1) v]
  note cn = r_reveal_counted[OF r assms(1) v]
  have 1: "board s' = board s" using g by (simp add: grows_def r_frame_def)
  have 2: "\<forall>h w. geti s' h w \<noteq> REVEAL \<longrightarrow> geti s' h w = geti s h w"
    using grows_geti_hidden[OF g] by simp
  have 3: "\<forall>h w. geti s h w = FLAGGED \<longrightarrow> geti s' h w = FLAGGED"
    using grows_flagged[OF g] by simp
  have 5: "hidden s' \<le> hidden s" "revealCount s' = revealCount s + of_nat (hidden s - hidden s')"
    using cn by (simp_all add: counted_def)
  have 6: "geti s' h w = REVEAL \<longleftrightarrow> geti s h w = REVEAL \<or> flood s ?y ?x h w"
    if nd: "\<not> is_done s'" and vh: "is_valid s h w" for h w
  proof
    assume "geti s' h w = REVEAL"
    then show "geti s h w = REVEAL \<or> flood s ?y ?x h w" using snd vh by blast
  next
    assume "geti s h w = REVEAL \<or> flood s ?y ?x h w"
    then show "geti s' h w = REVEAL"
    proof
      assume "geti s h w = REVEAL"
      then show ?thesis by (rule grows_revealed[OF g])
    next
      assume f: "flood s ?y ?x h w"
      from cl nd have "geti s ?y ?x = FLAGGED \<or> geti s' ?y ?x = REVEAL" "fresh_closed s s' ?y ?x"
        by simp_all
      from flood_complete[OF this(2) this(1) g f] show ?thesis .
    qed
  qed
  show ?thesis using 1 2 3 snd 5 6 by blast
qed

theorem flood_fill_region_witness:
  "wf_i ring_3x3 \<and> get ring_3x3 0 0 = 48 \<and> geti ring_3x3 1 1 = FLAGGED \<and>
   reveal 14 (\<lambda>i. i) (0, ring_3x3) = Some (0, ring_3x3_filled) \<and>
   \<not> is_done ring_3x3_filled \<and>
   geti ring_3x3_filled 2 2 = REVEAL \<and> flood ring_3x3 0 0 2 2 \<and>
   geti ring_3x3_filled 1 1 = FLAGGED \<and> \<not> flood ring_3x3 0 0 1 1 \<and>
   revealCount ring_3x3_filled = 8"
proof -
  have wf: "wf_i ring_3x3" by (simp add: wf_i_def ring_3x3_def)
  have c: "curY ring_3x3 = 0" "curX ring_3x3 = 0" by (simp_all add: ring_3x3_def)
  have z: "get ring_3x3 (curY ring_3x3) (curX ring_3x3) = 48"
    by (simp add: ring_3x3_def get_def is_valid_def cell_index_def)
  have e: "geti ring_3x3 1 1 = FLAGGED" "geti ring_3x3 2 2 = BLANK"
    "geti ring_3x3_filled 2 2 = REVEAL" "geti ring_3x3_filled 1 1 = FLAGGED"
    "is_valid ring_3x3 2 2" "is_valid ring_3x3 1 1" "\<not> is_done ring_3x3_filled"
    "revealCount ring_3x3_filled = 8"
    by (simp_all add: ring_3x3_def ring_3x3_filled_def geti_def is_valid_def cell_index_def
        is_done_def cell_defs)
  note t = flood_fill_region[OF wf z ring_3x3_reveal, unfolded c]
  from t e(7) e(5) have "geti ring_3x3_filled 2 2 = REVEAL \<longleftrightarrow>
      geti ring_3x3 2 2 = REVEAL \<or> flood ring_3x3 0 0 2 2" by blast
  then have f22: "flood ring_3x3 0 0 2 2" using e(2,3) by (simp add: cell_defs)
  from t e(7) e(6) have "geti ring_3x3_filled 1 1 = REVEAL \<longleftrightarrow>
      geti ring_3x3 1 1 = REVEAL \<or> flood ring_3x3 0 0 1 1" by blast
  then have f11: "\<not> flood ring_3x3 0 0 1 1" using e(4) by (simp add: cell_defs)
  show ?thesis using wf z[unfolded c] e ring_3x3_reveal f22 f11 by simp
qed

text \<open>
  On the 1 x 7 board the cursor cell (column 1) is hidden and has count 0, and
  column 3 is joined to it through the zero-count cell at column 2 and carries no
  flag; after \<^verbatim>\<open>reveal()\<close> the game is still being played and column 3 is still
  hidden, because column 2 had been revealed before.
\<close>

theorem flood_fill_stale_counterexample:
  "SBoard_new 20 (\<lambda>i. 6 * i) 0 1 7 1 =
     Some (2, stale_1x7\<lparr>curX := 0, revealCount := 0, input_board := replicate 7 0\<rparr>) \<and>
   main_loop 20 (\<lambda>i. 6 * i)
     [MoveRight, Flag, MoveRight, MoveRight, Flag, MoveLeft, Reveal,
      MoveLeft, Flag, MoveRight, MoveRight, Flag, MoveLeft, MoveLeft]
     (2, stale_1x7\<lparr>curX := 0, revealCount := 0, input_board := replicate 7 0\<rparr>) =
     Some (2, stale_1x7) \<and>
   \<not> is_done stale_1x7 \<and> get stale_1x7 0 1 = 48 \<and> geti stale_1x7 0 1 = BLANK \<and>
   reveal 20 (\<lambda>i. 6 * i) (2, stale_1x7) = Some (2, stale_1x7_after) \<and>
   \<not> is_done stale_1x7_after \<and>
   claimed_region stale_1x7 (curY stale_1x7) (curX stale_1x7) 0 3 \<and>
   get stale_1x7 0 3 = 48 \<and> geti stale_1x7_after 0 3 = BLANK"
proof -
  have run: "SBoard_new 20 (\<lambda>i. 6 * i) 0 1 7 1 =
     Some (2, stale_1x7\<lparr>curX := 0, revealCount := 0, input_board := replicate 7 0\<rparr>) \<and>
   main_loop 20 (\<lambda>i. 6 * i)
     [MoveRight, Flag, MoveRight, MoveRight, Flag, MoveLeft, Reveal,
      MoveLeft, Flag, MoveRight, MoveRight, Flag, MoveLeft, MoveLeft]
     (2, stale_1x7\<lparr>curX := 0, revealCount := 0, input_board := replicate 7 0\<rparr>) =
     Some (2, stale_1x7) \<and>
   \<not> is_done stale_1x7 \<and> get stale_1x7 0 1 = 48 \<and> geti stale_1x7 0 1 = BLANK \<and>
   reveal 20 (\<lambda>i. 6 * i) (2, stale_1x7) = Some (2, stale_1x7_after) \<and>
   \<not> is_done stale_1x7_after \<and>
   get stale_1x7 0 3 = 48 \<and> geti stale_1x7_after 0 3 = BLANK"
    by code_simp
  have c: "curY stale_1x7 = 0" "curX stale_1x7 = 1" by (simp_all add: stale_1x7_def)
  have v: "is_valid stale_1x7 0 1" "is_valid stale_1x7 0 2" "is_valid stale_1x7 0 3"
    by (simp_all add: stale_1x7_def is_valid_def)
  have g: "get stale_1x7 0 1 = 48" "get stale_1x7 0 2 = 48"
    by (simp_all add: stale_1x7_def get_def is_valid_def cell_index_def)
  have f: "geti stale_1x7 0 1 \<noteq> FLAGGED" "geti stale_1x7 0 2 \<noteq> FLAGGED" "geti stale_1x7 0 3 \<noteq> FLAGGED"
    by (simp_all add: stale_1x7_def geti_def is_valid_def cell_index_def cell_defs)
  have n: "near 0 1 0 2" "near 0 2 0 3" by (simp_all add: near_def)
  have 0: "claimed_region stale_1x7 0 1 0 1" by (rule claimed_region.origin[OF v(1) f(1)])
  have 1: "claimed_region stale_1x7 0 1 0 2"
    by (rule claimed_region.border[OF 0 g(1) n(1) v(2) f(2)])
  have 2: "claimed_region stale_1x7 0 1 0 3"
    by (rule claimed_region.border[OF 1 g(2) n(2) v(3) f(3)])
  show ?thesis using run 2 unfolding c by simp
qed

text \<open>
  C4. The claim is that the game is won exactly when revealCount reaches
  height * width - mines, 381 for the expert preset. \<^verbatim>\<open>max_reveal()\<close> returns
  that difference as a \<^verbatim>\<open>TCell\<close>: for 16 x 30 with 99 mines it is 125. On such a
  board that is still being played and has counted 124 revealed cells, revealing
  one more hidden cell that is not a mine ends the game as won, with revealCount
  125, which is less than 16 * 30 - 99.
\<close>

theorem expert_won_at_125:
  assumes "height s = 16" "width s = 30" "mines s = 99"
    and "\<not> is_done s" and "revealCount s = 124"
    and "geti s y x \<noteq> FLAGGED" "geti s y x \<noteq> REVEAL" "get s y x \<noteq> MINE"
  shows "sint (max_reveal s) = 125 \<and>
         (\<exists>s'. r_reveal (Suc n) y x s = Some s' \<and> win s' \<and> is_done s' \<and>
               sint (revealCount s') = 125 \<and>
               sint (revealCount s') < sint (height s) * sint (width s) - sint (mines s))"
proof -
  have m: "sint (max_reveal s) = 125" by (simp add: max_reveal_def assms(1-3))
  show ?thesis
    unfolding r_reveal_expert_aux[OF assms] using m
    by (simp add: is_done_def assms(1-3))
qed

theorem expert_won_at_125_witness:
  "\<not> is_done expert_late \<and> sint (revealCount expert_late) = 124 \<and>
   geti expert_late 0 0 = BLANK \<and> get expert_late 0 0 = 49 \<and>
   (\<exists>s'. r_reveal (Suc 0) 0 0 expert_late = Some s' \<and> win s' \<and> is_done s' \<and>
         sint (revealCount s') = 125)"
proof -
  have d: "height expert_late = 16" "width expert_late = 30" "mines expert_late = 99"
    "\<not> is_done expert_late" "revealCount expert_late = 124"
    by (simp_all add: expert_late_def is_done_def)
  have g: "geti expert_late 0 0 = BLANK" "get expert_late 0 0 = 49"
    by (simp_all add: expert_late_def geti_def get_def is_valid_def cell_index_def cell_defs)
  have c: "geti expert_late 0 0 \<noteq> FLAGGED" "geti expert_late 0 0 \<noteq> REVEAL"
    "get expert_late 0 0 \<noteq> MINE"
    unfolding g by (simp_all add: cell_defs)
  have rc: "sint (revealCount expert_late) = 124" by (simp add: d)
  from expert_won_at_125[OF d c, of 0] obtain s' where
    "r_reveal (Suc 0) 0 0 expert_late = Some s'" "win s'" "is_done s'"
    "sint (revealCount s') = 125"
    by blast
  then have "\<exists>s'. r_reveal (Suc 0) 0 0 expert_late = Some s' \<and> win s' \<and> is_done s' \<and>
         sint (revealCount s') = 125"
    by blast
  with d(4) rc g show ?thesis by blast
qed

text \<open>
  C5. The claim is that initialisation with mineCount at least height * width
  reports an error and returns. \<^verbatim>\<open>init\<close> validates nothing: with
  1 \<le> height, 1 \<le> width and more mines than cells it returns for no amount of
  fuel and no sequence of random numbers, because the loop that places the
  mines never reaches its exit.
\<close>

theorem init_more_mines_than_cells_diverges:
  assumes "1 \<le> sint (height s)" "1 \<le> sint (width s)"
    and "sint (height s) * sint (width s) < sint (mines s)"
  shows "init n rng (p, s) = None"
  by (rule init_diverges_aux[OF assms])

theorem init_more_mines_than_cells_diverges_witness:
  "1 \<le> sint (height overfull_1x1) \<and> 1 \<le> sint (width overfull_1x1) \<and>
   sint (height overfull_1x1) * sint (width overfull_1x1) < sint (mines overfull_1x1) \<and>
   init 1000 (\<lambda>i. i) (0, overfull_1x1) = None"
proof -
  have h: "1 \<le> sint (height overfull_1x1)" "1 \<le> sint (width overfull_1x1)"
    "sint (height overfull_1x1) * sint (width overfull_1x1) < sint (mines overfull_1x1)"
    by (simp_all add: overfull_1x1_def)
  from init_more_mines_than_cells_diverges[OF h, of 1000 "\<lambda>i. i" 0] h
  show ?thesis by simp
qed

theorem init_1x1_two_mines_counterexample:
  "\<not> (\<exists>n ps. SBoard_new n (\<lambda>i. i) 0 1 1 2 = Some ps)"
proof -
  have "SBoard_new n (\<lambda>i. i) 0 1 1 2 = None" for n
    unfolding SBoard_new_def by (rule init_diverges_aux) simp_all
  then show ?thesis by simp
qed

text \<open>
  C6. The claim is that in a state whose outcome is Won or Lost every later
  \<^verbatim>\<open>reveal()\<close>, \<^verbatim>\<open>flag()\<close> and \<^verbatim>\<open>move_cur()\<close> is a no-op. Only \<^verbatim>\<open>r_reveal\<close> tests
  \<^verbatim>\<open>is_done\<close>; the other guard is the loop of \<^verbatim>\<open>minesweeper\<close>, which stops
  reading keys. So: once the game is done, \<^verbatim>\<open>reveal()\<close> returns the state as it is
  (provided revealCount is not 0 or the cursor is not on a mine, so that the
  first-move loop does not restart the game), and the input loop leaves the
  state as it is whatever keys follow.
\<close>

theorem done_reveal_and_loop_noop:
  assumes "is_done s"
    and "revealCount s \<noteq> 0 \<or> get s (curY s) (curX s) \<noteq> MINE"
  shows "reveal (Suc n) rng (p, s) = Some (p, s) \<and> main_loop m rng ks (p, s) = Some (p, s)"
proof -
  have "first_reveal_loop (Suc n) rng (p, s) = Some (p, s)" using assms(2) by auto
  then have 1: "reveal (Suc n) rng (p, s) = Some (p, s)"
    using r_reveal_done[of s n "curY s" "curX s"] assms(1)
    by (simp add: reveal_def is_done_def)
  have 2: "main_loop m rng ks (p, s) = Some (p, s)"
    using assms(1) by (cases ks) simp_all
  from 1 2 show ?thesis ..
qed

theorem done_reveal_and_loop_noop_witness:
  "is_done won_1x2 \<and> win won_1x2 \<and> revealCount won_1x2 \<noteq> 0 \<and>
   reveal (Suc 0) (\<lambda>i. i) (2, won_1x2) = Some (2, won_1x2) \<and>
   main_loop 5 (\<lambda>i. i) [Flag, MoveRight, Reveal] (2, won_1x2) = Some (2, won_1x2)"
proof -
  have d: "is_done won_1x2" "win won_1x2" "revealCount won_1x2 \<noteq> 0"
    by (simp_all add: won_1x2_def is_done_def)
  from done_reveal_and_loop_noop[OF d(1) disjI1[OF d(3)], of 0 "\<lambda>i. i" 2 5 "[Flag, MoveRight, Reveal]"] d
  show ?thesis by simp
qed

text \<open>
  The won 1 x 2 board is reached from the constructor by one \<^verbatim>\<open>reveal()\<close>; on it
  \<^verbatim>\<open>move_cur(0, 1)\<close> still moves the cursor and \<^verbatim>\<open>flag()\<close> still flags the cell
  under it.
\<close>

theorem done_flag_move_counterexample:
  "SBoard_new 10 (\<lambda>i. i) 0 1 2 1 = Some (2, fresh_1x2) \<and>
   reveal 10 (\<lambda>i. i) (2, fresh_1x2) = Some (2, won_1x2) \<and>
   win won_1x2 \<and> is_done won_1x2 \<and>
   move_cur 0 1 won_1x2 \<noteq> won_1x2 \<and>
   flag (move_cur 0 1 won_1x2) \<noteq> move_cur 0 1 won_1x2"
  by code_simp

text \<open>
  C7. \<^verbatim>\<open>flag()\<close> on a HIDDEN cursor cell should set it to FLAGGED and increment
  flagCount. The counter is a \<^verbatim>\<open>TCell\<close>: on the intermediate preset, after the
  player has flagged 127 cells it reads 127, the cursor is on a HIDDEN cell, and
  the next \<^verbatim>\<open>flag()\<close> sets that cell to FLAGGED and leaves the counter at -128,
  with 128 cells flagged. Below 127 the call does increment the counter, and
  two calls in a row always give back the state (lemma \<open>flag_cases\<close>).
\<close>

theorem flag_count_wraps_at_128:
  "(case SBoard_new 50 intermediate_rng 0 16 16 40 of
      None \<Rightarrow> None
    | Some ps \<Rightarrow>
        map_option
          (\<lambda>(p, s). (sint (flagCount s), count_list (input_board s) FLAGGED,
                     geti s (curY s) (curX s) = BLANK,
                     geti (flag s) (curY s) (curX s) = FLAGGED,
                     sint (flagCount (flag s)), count_list (input_board (flag s)) FLAGGED))
          (main_loop 50 intermediate_rng flag_127_keys ps))
   = Some (127, 127, True, True, - 128, 128)"
  by code_simp

text \<open>
  C8. With the cursor inside the grid, \<^verbatim>\<open>move_cur(dy, dx)\<close> moves the cursor to
  exactly (curY + dy, curX + dx), computed on the integers, when that
  coordinate is inside the grid, and changes nothing otherwise, for every pair
  of 8-bit deltas; so the cursor is inside the grid after any sequence of moves.
\<close>

theorem move_cur_in_bounds:
  assumes "is_valid s (curY s) (curX s)"
  shows "(if 0 \<le> sint (curY s) + sint dy \<and> sint (curY s) + sint dy < sint (height s) \<and>
             0 \<le> sint (curX s) + sint dx \<and> sint (curX s) + sint dx < sint (width s)
          then sint (curY (move_cur dy dx s)) = sint (curY s) + sint dy \<and>
               sint (curX (move_cur dy dx s)) = sint (curX s) + sint dx \<and>
               move_cur dy dx s = s\<lparr>curY := curY (move_cur dy dx s), curX := curX (move_cur dy dx s)\<rparr>
          else move_cur dy dx s = s) \<and>
         is_valid (moves ds s) (curY (moves ds s)) (curX (moves ds s))"
proof -
  have 1: "is_valid (moves ds s) (curY (moves ds s)) (curX (moves ds s))"
    by (rule moves_valid[OF assms])
  show ?thesis
  proof (cases "0 \<le> sint (curY s) + sint dy \<and> sint (curY s) + sint dy < sint (height s) \<and>
             0 \<le> sint (curX s) + sint dx \<and> sint (curX s) + sint dx < sint (width s)")
    case True
    then have ok: "0 \<le> sint (curY s) + sint dy \<and> sint (curY s) + sint dy < sint (height s)"
       "0 \<le> sint (curX s) + sint dx \<and> sint (curX s) + sint dx < sint (width s)" by simp_all
    have "move_cur dy dx s = s\<lparr>curY := curY (move_cur dy dx s), curX := curX (move_cur dy dx s)\<rparr>"
      unfolding move_cur_exact[OF assms] by simp
    with move_cur_coords[OF assms ok] 1 True show ?thesis by simp
  next
    case False
    then have "move_cur dy dx s = s"
      by (subst move_cur_exact[OF assms]) (rule if_not_P)
    with 1 False show ?thesis by (simp only: if_False simp_thms)
  qed
qed

theorem move_cur_in_bounds_witness:
  "is_valid board_1x3 (curY board_1x3) (curX board_1x3) \<and>
   sint (curX (move_cur 0 2 board_1x3)) = 2 \<and>
   move_cur 0 127 board_1x3 = board_1x3 \<and>
   move_cur (- 128) 1 board_1x3 = board_1x3 \<and>
   is_valid (moves [(0, 1), (1, 0), (0, 127), (0, 1), (0, 1)] board_1x3)
     (curY (moves [(0, 1), (1, 0), (0, 127), (0, 1), (0, 1)] board_1x3))
     (curX (moves [(0, 1), (1, 0), (0, 127), (0, 1), (0, 1)] board_1x3))"
proof -
  have v: "is_valid board_1x3 (curY board_1x3) (curX board_1x3)"
    by (simp add: board_1x3_def is_valid_def)
  have d: "sint (curY board_1x3) = 0" "sint (curX board_1x3) = 0"
    "sint (height board_1x3) = 1" "sint (width board_1x3) = 3"
    by (simp_all add: board_1x3_def)
  from move_cur_in_bounds[OF v, of 0 2 "[(0, 1), (1, 0), (0, 127), (0, 1), (0, 1)]"]
    move_cur_in_bounds[OF v, of 0 127 "[]"] move_cur_in_bounds[OF v, of "- 128" 1 "[]"] v
  show ?thesis unfolding d by simp
qed

text \<open>
  C9. In every state of a game the recursive flood fill returns, visits no cell
  twice and makes at most height * width visits. A call of \<^verbatim>\<open>r_reveal\<close> visits its
  cell when it has passed the tests for \<^verbatim>\<open>done\<close> and for FLAGGED; \<open>r_reveal_visits\<close>
  records these visits and computes the same state as \<^verbatim>\<open>r_reveal\<close>. The states of
  a game are well formed (\<open>wf_i\<close>, \<open>loops_exit\<close>) and have their cursor, where
  \<^verbatim>\<open>reveal()\<close> starts the fill, in the grid (lemma \<open>reachable_board_inv\<close>). On such
  a board the fill returns for every fuel from \<open>hidden s + 5\<close> on, the visited
  cells are pairwise different cells of the grid, so they are at most
  height * width, none of them was flagged, and all of them are REVEALED
  afterwards.
\<close>

theorem flood_fill_visits_once:
  assumes "wf_i s" "loops_exit s" "is_valid s y x"
  shows "\<forall>n \<ge> hidden s + 5.
           \<exists>s' l. r_reveal_visits n y x (s, []) = Some (s', l) \<and> r_reveal n y x s = Some s' \<and>
                  distinct l \<and> length l \<le> nat (sint (height s) * sint (width s)) \<and>
                  (\<forall>(h, w) \<in> set l. is_valid s h w \<and> geti s h w \<noteq> FLAGGED \<and> geti s' h w = REVEAL)"
proof (intro allI impI)
  fix n assume n: "hidden s + 5 \<le> n"
  then have "hidden s + (if geti s y x = REVEAL then 5 else 4) \<le> n" by simp
  from r_reveal_visits_total[OF assms this, of "[]"] obtain s' l where
    r: "r_reveal_visits n y x (s, []) = Some (s', l)" "grows s s'" "distinct l"
      "\<forall>(h, w) \<in> set l. is_valid s h w \<and> geti s' h w = REVEAL \<and>
         (geti s h w \<noteq> REVEAL \<or> (h = y \<and> w = x))"
    by auto
  have p: "r_reveal n y x s = Some s'"
    using r_reveal_visits_fst[of n y x s "[]"] r(1) by simp
  have c: "is_valid s h w \<and> geti s h w \<noteq> FLAGGED \<and> geti s' h w = REVEAL"
    if "(h, w) \<in> set l" for h w
  proof -
    have a: "is_valid s h w" "geti s' h w = REVEAL" using r(4) that by blast+
    have "geti s' h w = geti s h w \<or> geti s h w \<noteq> FLAGGED" using r(2) unfolding grows_def by blast
    then have "geti s h w \<noteq> FLAGGED" using a(2) by (auto simp: cell_defs)
    with a show ?thesis by simp
  qed
  have len: "length l \<le> nat (sint (height s) * sint (width s))"
    by (rule visits_length[OF r(3)]) (use c in blast)
  have cq: "\<forall>(h, w) \<in> set l. is_valid s h w \<and> geti s h w \<noteq> FLAGGED \<and> geti s' h w = REVEAL"
    using c by blast
  from r(1) p r(3) len cq
  show "\<exists>s' l. r_reveal_visits n y x (s, []) = Some (s', l) \<and> r_reveal n y x s = Some s' \<and>
                  distinct l \<and> length l \<le> nat (sint (height s) * sint (width s)) \<and>
                  (\<forall>(h, w) \<in> set l. is_valid s h w \<and> geti s h w \<noteq> FLAGGED \<and> geti s' h w = REVEAL)"
    by blast
qed

text \<open>
  The 3 x 3 board without mines whose centre the player has flagged: the fill
  from the corner visits the eight other cells, each once, and not the centre.
\<close>

theorem flood_fill_visits_once_witness:
  "SBoard_new 20 (\<lambda>i. i) 0 3 3 0 = Some (0, ring_3x3\<lparr>flagCount := 0, input_board := replicate 9 0\<rparr>) \<and>
   main_loop 20 (\<lambda>i. i) [MoveDown, MoveRight, Flag, MoveUp, MoveLeft]
     (0, ring_3x3\<lparr>flagCount := 0, input_board := replicate 9 0\<rparr>) = Some (0, ring_3x3) \<and>
   wf_i ring_3x3 \<and> is_valid ring_3x3 0 0 \<and> hidden ring_3x3 = 9 \<and>
   r_reveal_visits 14 0 0 (ring_3x3, []) = Some (ring_3x3_filled, ring_3x3_visits) \<and>
   r_reveal 14 0 0 ring_3x3 = Some ring_3x3_filled \<and>
   distinct ring_3x3_visits \<and> length ring_3x3_visits \<le> 9 \<and>
   geti ring_3x3 1 1 = FLAGGED \<and> (1, 1) \<notin> set ring_3x3_visits"
proof -
  have b: "SBoard_new 20 (\<lambda>i. i) 0 3 3 0 = Some (0, ring_3x3\<lparr>flagCount := 0, input_board := replicate 9 0\<rparr>)"
    "main_loop 20 (\<lambda>i. i) [MoveDown, MoveRight, Flag, MoveUp, MoveLeft]
       (0, ring_3x3\<lparr>flagCount := 0, input_board := replicate 9 0\<rparr>) = Some (0, ring_3x3)"
    by code_simp+
  have wf: "wf_i ring_3x3" by (simp add: wf_i_def ring_3x3_def)
  have le: "loops_exit ring_3x3"
    unfolding loops_exit_def is_valid_def by (simp add: ring_3x3_def)
  have v: "is_valid ring_3x3 0 0" by (simp add: is_valid_def ring_3x3_def)
  have h: "hidden ring_3x3 = 9"
    by (simp add: hidden_def ring_3x3_def cell_defs)
  have d: "sint (height ring_3x3) * sint (width ring_3x3) = 9" by (simp add: ring_3x3_def)
  have r: "r_reveal_visits 14 0 0 (ring_3x3, []) = Some (ring_3x3_filled, ring_3x3_visits)"
    by code_simp
  have f: "geti ring_3x3 1 1 = FLAGGED"
    by (simp add: geti_def is_valid_def cell_index_def ring_3x3_def cell_defs)
  from flood_fill_visits_once[OF wf le v] have
    "\<exists>s' l. r_reveal_visits 14 0 0 (ring_3x3, []) = Some (s', l) \<and> r_reveal 14 0 0 ring_3x3 = Some s' \<and>
       distinct l \<and> length l \<le> nat (sint (height ring_3x3) * sint (width ring_3x3)) \<and>
       (\<forall>(h, w) \<in> set l. is_valid ring_3x3 h w \<and> geti ring_3x3 h w \<noteq> FLAGGED \<and> geti s' h w = REVEAL)"
    unfolding h by simp
  then have t: "r_reveal 14 0 0 ring_3x3 = Some ring_3x3_filled" "distinct ring_3x3_visits"
    "length ring_3x3_visits \<le> 9"
    "\<forall>(h, w) \<in> set ring_3x3_visits. geti ring_3x3 h w \<noteq> FLAGGED"
    unfolding r d by auto
  from t(4) f have "(1, 1) \<notin> set ring_3x3_visits" by blast
  with b wf v h r t(1-3) f show ?thesis by simp
qed

text \<open>
  C10. When the cursor cell is FLAGGED and either revealCount is positive or the
  cursor cell is not a mine, \<^verbatim>\<open>reveal()\<close> returns (with any fuel of at least 1)
  and leaves the whole board state unchanged: both layers, both counters, the
  cursor and the outcome flags. No random number is drawn.
\<close>

theorem reveal_flagged_cursor_noop:
  assumes "geti s (curY s) (curX s) = FLAGGED"
    and "0 < sint (revealCount s) \<or> get s (curY s) (curX s) \<noteq> MINE"
  shows "reveal (Suc n) rng (p, s) = Some (p, s)"
proof -
  have "revealCount s \<noteq> 0 \<or> get s (curY s) (curX s) \<noteq> MINE"
    using assms(2) by auto
  then have "first_reveal_loop (Suc n) rng (p, s) = Some (p, s)" by auto
  then show ?thesis using r_reveal_flagged[OF assms(1)] by (simp add: reveal_def)
qed

theorem reveal_flagged_cursor_noop_witness:
  "geti board_1x3 (curY board_1x3) (curX board_1x3) = FLAGGED \<and>
   0 < sint (revealCount board_1x3) \<and>
   get board_1x3 (curY board_1x3) (curX board_1x3) = MINE \<and>
   reveal (Suc 0) (\<lambda>i. 0) (0, board_1x3) = Some (0, board_1x3)"
proof -
  have f: "geti board_1x3 (curY board_1x3) (curX board_1x3) = FLAGGED"
    by (simp add: board_1x3_def geti_def is_valid_def cell_index_def cell_defs)
  have r: "0 < sint (revealCount board_1x3)" by (simp add: board_1x3_def)
  have m: "get board_1x3 (curY board_1x3) (curX board_1x3) = MINE"
    by (simp add: board_1x3_def get_def is_valid_def cell_index_def cell_defs)
  from reveal_flagged_cursor_noop[OF f disjI1[OF r], of 0 "\<lambda>i. 0" 0] f r m
  show ?thesis by simp
qed

end
